theory Spec2Isabelle
  imports Complex_Main
begin

section \<open>The look-ahead playback scheduler of useAudioPlayback.ts\<close>

text \<open>
  A shallow embedding of \<^verbatim>\<open>frontend/src/hooks/useAudioPlayback.ts\<close>.

  Conventions of the model:
  \<^item> a JavaScript \<^verbatim>\<open>number\<close> that holds a time, a frequency or a beat count is a
    \<^typ>\<open>real\<close>; rounding of IEEE doubles, \<^verbatim>\<open>NaN\<close> and the infinities are outside the
    model. An octave is an \<^typ>\<open>int\<close>, an index into the timeline a \<^typ>\<open>nat\<close>;
  \<^item> the two lookup tables are association lists read with \<^const>\<open>map_of\<close>; only the keys
    written in the source are modelled (not the members an object literal inherits);
  \<^item> every React ref and every piece of React state is a field of one record, and each
    callback is a function from the record to the updated record;
  \<^item> \<^verbatim>\<open>audioCtx.currentTime\<close> (engine time) is read from the environment, so each
    callback takes the value it reads as the argument \<open>now\<close>; engine time is constant
    while one callback runs;
  \<^item> the browser's pending \<^verbatim>\<open>setTimeout\<close> and \<^verbatim>\<open>requestAnimationFrame\<close> callbacks are
    lists of handles in the record, oldest first. When a callback runs is the
    environment's choice: an event names the engine time at which it runs, and the
    delay asked of the timer is not part of the state;
  \<^item> the timeline, the tempo and the total duration are those of the first render. A
    render with other props, the cleanup on unmount, and a browser that refuses to create
    or to resume the audio context are not modelled.
\<close>

subsection \<open>Data\<close>

datatype PlaybackState = Idle | Playing | Paused

record NoteData =
  pitch :: string
  octave :: int
  duration :: string
  start_time :: real

subsection \<open>Tables and constants\<close>

definition NOTE_SEMITONES :: "(string \<times> int) list" where
  "NOTE_SEMITONES =
     [(''C'', 0), (''C#'', 1), (''Db'', 1), (''D'', 2), (''D#'', 3), (''Eb'', 3),
      (''E'', 4), (''F'', 5), (''F#'', 6), (''Gb'', 6), (''G'', 7), (''G#'', 8),
      (''Ab'', 8), (''A'', 9), (''A#'', 10), (''Bb'', 10), (''B'', 11)]"

definition DURATION_BEATS :: "(string \<times> real) list" where
  "DURATION_BEATS =
     [(''w'', 4), (''hd'', 3), (''h'', 2), (''qd'', 1.5), (''q'', 1),
      (''8d'', 0.75), (''8'', 0.5), (''16'', 0.25)]"

definition LOOKAHEAD_SECS :: real where
  "LOOKAHEAD_SECS = 2.0"

definition SCHEDULE_INTERVAL_MS :: nat where
  "SCHEDULE_INTERVAL_MS = 200"

subsection \<open>Time and frequency utilities\<close>

text \<open>\<^verbatim>\<open>NOTE_SEMITONES[pitch] ?? 0\<close>, then the equal-tempered formula.\<close>

definition noteToFreq :: "string \<Rightarrow> int \<Rightarrow> real" where
  "noteToFreq p oct =
     (let semitone = (case map_of NOTE_SEMITONES p of Some v \<Rightarrow> v | None \<Rightarrow> 0);
          midi = (oct + 1) * 12 + semitone
      in 440 * 2 powr ((real_of_int midi - 69) / 12))"

text \<open>
  \<^verbatim>\<open>duration.replace('r', '')\<close> with a string pattern removes the first occurrence of
  the character, wherever it stands, and nothing else.
\<close>

fun replace_first :: "char \<Rightarrow> string \<Rightarrow> string" where
  "replace_first c [] = []"
| "replace_first c (x # xs) = (if x = c then xs else x # replace_first c xs)"

definition durationToSecs :: "string \<Rightarrow> real \<Rightarrow> real" where
  "durationToSecs d tp =
     (let beats = (case map_of DURATION_BEATS (replace_first CHR ''r'' d) of
                     Some b \<Rightarrow> b | None \<Rightarrow> 1)
      in beats * (60 / tp))"

text \<open>\<^verbatim>\<open>note.duration.endsWith('r')\<close>: the test for a rest.\<close>

definition endsWith_r :: "string \<Rightarrow> bool" where
  "endsWith_r d = (case rev d of [] \<Rightarrow> False | c # _ \<Rightarrow> c = CHR ''r'')"

subsection \<open>The utilities as the specification words them\<close>

text \<open>
  The semitone offset of a pitch name from C, from the letter and its accidental: the
  naturals C, D, E, F, G, A, B lie 0, 2, 4, 5, 7, 9, 11 semitones above C, a sharp raises
  a letter by one semitone and a flat lowers it by one.
\<close>

definition letter_semitone :: "char \<Rightarrow> int" where
  "letter_semitone l =
     (if l = CHR ''C'' then 0 else if l = CHR ''D'' then 2 else if l = CHR ''E'' then 4
      else if l = CHR ''F'' then 5 else if l = CHR ''G'' then 7 else if l = CHR ''A'' then 9
      else if l = CHR ''B'' then 11 else 0)"

fun semitone_from_C :: "string \<Rightarrow> int" where
  "semitone_from_C [l] = letter_semitone l"
| "semitone_from_C [l, a] =
     (if a = CHR ''#'' then letter_semitone l + 1
      else if a = CHR ''b'' then letter_semitone l - 1 else 0)"
| "semitone_from_C _ = 0"

text \<open>The seventeen spellings of the twelve chromatic pitch classes.\<close>

definition chromatic_spellings :: "string list" where
  "chromatic_spellings =
     [''C'', ''C#'', ''Db'', ''D'', ''D#'', ''Eb'', ''E'', ''F'', ''F#'', ''Gb'', ''G'',
      ''G#'', ''Ab'', ''A'', ''A#'', ''Bb'', ''B'']"

text \<open>
  The duration rule as the specification words it: a rest suffix (a final \<open>r\<close>) is
  stripped, the remaining code is looked up in the beat table, and a code that is not in
  the table counts one beat.
\<close>

definition strip_rest_suffix :: "string \<Rightarrow> string" where
  "strip_rest_suffix d = (if endsWith_r d then butlast d else d)"

definition duration_to_seconds_spec :: "string \<Rightarrow> real \<Rightarrow> real" where
  "duration_to_seconds_spec d tp =
     (case map_of DURATION_BEATS (strip_rest_suffix d) of
        Some b \<Rightarrow> b * 60 / tp
      | None \<Rightarrow> 60 / tp)"

subsection \<open>The audio graph\<close>

text \<open>
  One call on a gain parameter: the value and the engine time it is given.
\<close>

datatype automation =
  SetValueAtTime real real
| LinearRampToValueAtTime real real
| ExponentialRampToValueAtTime real real

text \<open>
  An oscillator with the gain node it is connected through: its frequency, the calls made
  on the gain, the argument of \<^verbatim>\<open>start\<close> and the argument of the most recent call of
  \<^verbatim>\<open>stop\<close>. The oscillator sounds at engine time \<open>t\<close> when
  \<open>start_at \<le> t\<close> and \<open>t < stop_at\<close>.
\<close>

record Osc =
  frequency :: real
  gain :: "automation list"
  start_at :: real
  stop_at :: real

subsection \<open>The state of one hook instance\<close>

text \<open>
  The two pieces of React state, the refs (\<open>audioCtxRef\<close> holds whether the context has
  been created; \<open>oscsRef\<close> holds references into \<open>ctx_oscillators\<close>), and the part of
  the browser the hook acts on: every oscillator created in the audio context, in order of
  creation, and the pending timer and animation-frame callbacks with the next free handle
  of each kind.
\<close>

record hook =
  playbackState :: PlaybackState
  currentTime :: real
  audioCtxRef :: bool
  oscsRef :: "nat list"
  contextStartRef :: real
  seekOffsetRef :: real
  rafRef :: "nat option"
  schedulerTimerRef :: "nat option"
  nextNoteIndexRef :: nat
  sortedNotesRef :: "NoteData list"
  tempoRef :: real
  totalDurationRef :: real
  ctx_oscillators :: "Osc list"
  pending_timeouts :: "nat list"
  pending_frames :: "nat list"
  next_timeout_id :: nat
  next_frame_id :: nat

text \<open>
  The first render: \<^verbatim>\<open>[...notes].sort((a, b) => a.start_time - b.start_time)\<close> is a
  stable sort by start time.
\<close>

definition useAudioPlayback :: "NoteData list \<Rightarrow> real \<Rightarrow> real \<Rightarrow> hook" where
  "useAudioPlayback notes tp total_duration =
     \<lparr>playbackState = Idle, currentTime = 0, audioCtxRef = False, oscsRef = [],
      contextStartRef = 0, seekOffsetRef = 0, rafRef = None, schedulerTimerRef = None,
      nextNoteIndexRef = 0, sortedNotesRef = sort_key start_time notes, tempoRef = tp,
      totalDurationRef = total_duration, ctx_oscillators = [], pending_timeouts = [],
      pending_frames = [], next_timeout_id = 1, next_frame_id = 1\<rparr>"

subsection \<open>Browser calls\<close>

definition setTimeout :: "hook \<Rightarrow> hook" where
  "setTimeout s =
     s\<lparr>schedulerTimerRef := Some (next_timeout_id s),
       pending_timeouts := pending_timeouts s @ [next_timeout_id s],
       next_timeout_id := next_timeout_id s + 1\<rparr>"

definition requestAnimationFrame :: "hook \<Rightarrow> hook" where
  "requestAnimationFrame s =
     s\<lparr>rafRef := Some (next_frame_id s),
       pending_frames := pending_frames s @ [next_frame_id s],
       next_frame_id := next_frame_id s + 1\<rparr>"

subsection \<open>Cancellation\<close>

definition cancelRaf :: "hook \<Rightarrow> hook" where
  "cancelRaf s =
     (case rafRef s of
        None \<Rightarrow> s
      | Some h \<Rightarrow> s\<lparr>pending_frames := removeAll h (pending_frames s), rafRef := None\<rparr>)"

definition cancelScheduler :: "hook \<Rightarrow> hook" where
  "cancelScheduler s =
     (case schedulerTimerRef s of
        None \<Rightarrow> s
      | Some h \<Rightarrow>
          s\<lparr>pending_timeouts := removeAll h (pending_timeouts s), schedulerTimerRef := None\<rparr>)"

text \<open>\<^verbatim>\<open>osc.stop(0)\<close> on the oscillator a reference points to.\<close>

definition stop_osc :: "Osc list \<Rightarrow> nat \<Rightarrow> Osc list" where
  "stop_osc ns i = (if i < length ns then ns[i := (ns ! i)\<lparr>stop_at := 0\<rparr>] else ns)"

definition killOscillators :: "hook \<Rightarrow> hook" where
  "killOscillators s =
     s\<lparr>ctx_oscillators := foldl stop_osc (ctx_oscillators s) (oscsRef s), oscsRef := []\<rparr>"

subsection \<open>Scheduling one note\<close>

text \<open>The fundamental with its envelope, and the overtone at twice the frequency.\<close>

definition primaryOsc :: "real \<Rightarrow> real \<Rightarrow> real \<Rightarrow> real \<Rightarrow> Osc" where
  "primaryOsc freq schedStart endAt dur =
     (let attackTime = 0.003;
          decayTime = min 0.3 (dur * 0.4);
          peakGain = 0.45;
          sustainLevel = peakGain * 0.25;
          sustainEnd = max (schedStart + attackTime + decayTime) (endAt - min 0.12 (dur * 0.25))
      in \<lparr>frequency = freq,
          gain = [SetValueAtTime 0 schedStart,
                  LinearRampToValueAtTime peakGain (schedStart + attackTime),
                  ExponentialRampToValueAtTime sustainLevel (schedStart + attackTime + decayTime),
                  SetValueAtTime sustainLevel sustainEnd,
                  ExponentialRampToValueAtTime 0.001 endAt],
          start_at = schedStart, stop_at = endAt\<rparr>)"

definition brightOsc :: "real \<Rightarrow> real \<Rightarrow> real \<Rightarrow> Osc" where
  "brightOsc freq schedStart dur =
     (let attackTime = 0.003;
          decayTime = min 0.3 (dur * 0.4);
          brightDecay = decayTime * 0.4
      in \<lparr>frequency = freq * 2,
          gain = [SetValueAtTime 0 schedStart,
                  LinearRampToValueAtTime 0.06 (schedStart + attackTime),
                  ExponentialRampToValueAtTime 0.001 (schedStart + attackTime + brightDecay)],
          start_at = schedStart, stop_at = schedStart + attackTime + brightDecay + 0.01\<rparr>)"

definition scheduleNote :: "real \<Rightarrow> NoteData \<Rightarrow> hook \<Rightarrow> hook" where
  "scheduleNote now note s =
     (if endsWith_r (duration note) then s
      else
        let startAt = contextStartRef s + start_time note
        in if startAt < now - 0.02 then s
           else
             let freq = noteToFreq (pitch note) (octave note);
                 dur = durationToSecs (duration note) (tempoRef s);
                 endAt = startAt + dur;
                 schedStart = max startAt now;
                 n = length (ctx_oscillators s)
             in s\<lparr>ctx_oscillators :=
                    ctx_oscillators s @
                      [primaryOsc freq schedStart endAt dur, brightOsc freq schedStart dur],
                  oscsRef := oscsRef s @ [n, n + 1]\<rparr>)"

subsection \<open>The scheduler\<close>

function schedLoop :: "real \<Rightarrow> real \<Rightarrow> hook \<Rightarrow> hook" where
  "schedLoop now scheduleUpTo s =
     (if nextNoteIndexRef s < length (sortedNotesRef s) \<and>
         start_time (sortedNotesRef s ! nextNoteIndexRef s) \<le> scheduleUpTo
      then
        let s' = scheduleNote now (sortedNotesRef s ! nextNoteIndexRef s) s
        in schedLoop now scheduleUpTo (s'\<lparr>nextNoteIndexRef := nextNoteIndexRef s' + 1\<rparr>)
      else s)"
  by pat_completeness auto
termination
  by (relation "measure (\<lambda>(now, scheduleUpTo, s). length (sortedNotesRef s) - nextNoteIndexRef s)")
     (auto simp: scheduleNote_def Let_def)

declare schedLoop.simps [simp del]

definition runScheduler :: "real \<Rightarrow> hook \<Rightarrow> hook" where
  "runScheduler now s =
     (let playbackPos = now - contextStartRef s;
          scheduleUpTo = playbackPos + LOOKAHEAD_SECS;
          s' = schedLoop now scheduleUpTo s
      in if nextNoteIndexRef s' < length (sortedNotesRef s') then setTimeout s' else s')"

subsection \<open>The controls\<close>

function seekLoop :: "NoteData list \<Rightarrow> real \<Rightarrow> nat \<Rightarrow> nat" where
  "seekLoop timeline from_pos idx =
     (if idx < length timeline \<and> start_time (timeline ! idx) < from_pos - 0.02
      then seekLoop timeline from_pos (idx + 1) else idx)"
  by pat_completeness auto
termination
  by (relation "measure (\<lambda>(timeline, from_pos, idx). length timeline - idx)") auto

declare seekLoop.simps [simp del]

text \<open>
  The frame callback \<^verbatim>\<open>tick\<close> that \<^verbatim>\<open>play\<close> registers. React keeps the last value
  set within one callback.
\<close>

definition tick :: "real \<Rightarrow> hook \<Rightarrow> hook" where
  "tick now s =
     (if \<not> audioCtxRef s then s
      else
        let elapsed = now - contextStartRef s;
            s1 = s\<lparr>currentTime := min elapsed (totalDurationRef s)\<rparr>
        in if elapsed \<ge> totalDurationRef s1
           then (cancelRaf (killOscillators (cancelScheduler s1)))
                  \<lparr>seekOffsetRef := 0, playbackState := Idle, currentTime := 0\<rparr>
           else requestAnimationFrame s1)"

text \<open>
  \<^verbatim>\<open>play\<close> from the point where the audio context exists and runs: the body has no
  other suspension point, so it is one step.
\<close>

definition play :: "real \<Rightarrow> hook \<Rightarrow> hook" where
  "play now s =
     (let s1 = killOscillators (cancelScheduler (cancelRaf (s\<lparr>audioCtxRef := True\<rparr>)));
          from_pos = seekOffsetRef s1;
          s2 = s1\<lparr>contextStartRef := now - from_pos\<rparr>;
          idx = seekLoop (sortedNotesRef s2) from_pos 0;
          s3 = runScheduler now (s2\<lparr>nextNoteIndexRef := idx\<rparr>)
      in requestAnimationFrame (s3\<lparr>playbackState := Playing\<rparr>))"

definition pause :: "real \<Rightarrow> hook \<Rightarrow> hook" where
  "pause now s =
     (if \<not> audioCtxRef s then s
      else
        let s1 = s\<lparr>seekOffsetRef := now - contextStartRef s\<rparr>;
            s2 = killOscillators (cancelScheduler (cancelRaf s1))
        in s2\<lparr>playbackState := Paused, currentTime := seekOffsetRef s2\<rparr>)"

definition stop :: "hook \<Rightarrow> hook" where
  "stop s =
     (killOscillators (cancelScheduler (cancelRaf s)))
       \<lparr>seekOffsetRef := 0, playbackState := Idle, currentTime := 0\<rparr>"

subsection \<open>The event loop\<close>

text \<open>
  The oldest pending timer callback runs (all timers have the same delay), and the oldest
  pending frame callback runs; nothing happens when none is pending.
\<close>

definition fire_timeout :: "real \<Rightarrow> hook \<Rightarrow> hook" where
  "fire_timeout now s =
     (case pending_timeouts s of
        [] \<Rightarrow> s
      | h # hs \<Rightarrow> runScheduler now (s\<lparr>pending_timeouts := hs\<rparr>))"

definition fire_frame :: "real \<Rightarrow> hook \<Rightarrow> hook" where
  "fire_frame now s =
     (case pending_frames s of
        [] \<Rightarrow> s
      | h # hs \<Rightarrow> tick now (s\<lparr>pending_frames := hs\<rparr>))"

text \<open>
  What can happen to a hook instance, with the engine time at which it happens: a call of
  a control, a timer callback, a frame callback.
\<close>

datatype event = Play real | Pause real | Stop | Timeout real | Frame real

fun step :: "event \<Rightarrow> hook \<Rightarrow> hook" where
  "step (Play now) s = play now s"
| "step (Pause now) s = pause now s"
| "step Stop s = stop s"
| "step (Timeout now) s = fire_timeout now s"
| "step (Frame now) s = fire_frame now s"

fun run :: "event list \<Rightarrow> hook \<Rightarrow> hook" where
  "run [] s = s"
| "run (e # es) s = run es (step e s)"

subsection \<open>Notions used to state the properties\<close>

text \<open>
  The oscillators one call of \<open>scheduleNote\<close> creates for an event, given the clock
  anchor, the engine time of the call and the tempo: none for a rest or for an event more
  than 20 ms late, otherwise the fundamental and the overtone.
\<close>

definition voice :: "real \<Rightarrow> real \<Rightarrow> real \<Rightarrow> NoteData \<Rightarrow> Osc list" where
  "voice anchor now tp note =
     (if endsWith_r (duration note) \<or> anchor + start_time note < now - 0.02 then []
      else
        let startAt = anchor + start_time note;
            dur = durationToSecs (duration note) tp;
            freq = noteToFreq (pitch note) (octave note);
            schedStart = max startAt now
        in [primaryOsc freq schedStart (startAt + dur) dur, brightOsc freq schedStart dur])"

text \<open>
  The voice of an event sounded exactly on time: it starts at the anchor plus the event's
  start time.
\<close>

definition toneVoice :: "real \<Rightarrow> real \<Rightarrow> NoteData \<Rightarrow> Osc list" where
  "toneVoice anchor tp note =
     (let startAt = anchor + start_time note;
          dur = durationToSecs (duration note) tp;
          freq = noteToFreq (pitch note) (octave note)
      in [primaryOsc freq startAt (startAt + dur) dur, brightOsc freq startAt dur])"

text \<open>The events one run of the scheduler loop passes, from the cursor on.\<close>

definition due_from :: "real \<Rightarrow> nat \<Rightarrow> NoteData list \<Rightarrow> NoteData list" where
  "due_from scheduleUpTo idx timeline =
     takeWhile (\<lambda>e. start_time e \<le> scheduleUpTo) (drop idx timeline)"

text \<open>The oscillators the references of \<open>oscsRef\<close> point to: the live-voice set.\<close>

definition tracked :: "hook \<Rightarrow> Osc list" where
  "tracked s = map (\<lambda>i. ctx_oscillators s ! i) (oscsRef s)"

text \<open>
  A ref that holds a handle and the pending callbacks of its kind agree: at most one
  callback is pending, the ref holds its handle, and a handle in use lies below the next
  free one.
\<close>

definition handle_ok :: "nat option \<Rightarrow> nat list \<Rightarrow> nat \<Rightarrow> bool" where
  "handle_ok r pending next_id =
     (case r of
        None \<Rightarrow> pending = []
      | Some h \<Rightarrow> (pending = [] \<or> pending = [h]) \<and> h < next_id)"

definition settled :: "hook \<Rightarrow> bool" where
  "settled s = (oscsRef s = [] \<and> schedulerTimerRef s = None \<and> rafRef s = None)"

text \<open>
  What holds of every state a hook instance can reach (\<open>consistent_reachable\<close> below).
\<close>

definition consistent :: "hook \<Rightarrow> bool" where
  "consistent s =
     (handle_ok (schedulerTimerRef s) (pending_timeouts s) (next_timeout_id s) \<and>
      handle_ok (rafRef s) (pending_frames s) (next_frame_id s) \<and>
      list_all (\<lambda>i. i < length (ctx_oscillators s)) (oscsRef s) \<and>
      (playbackState s = Idle \<longrightarrow> settled s \<and> seekOffsetRef s = 0 \<and> currentTime s = 0) \<and>
      (playbackState s = Paused \<longrightarrow> settled s \<and> currentTime s = seekOffsetRef s) \<and>
      (playbackState s = Playing \<longrightarrow> audioCtxRef s \<and> pending_frames s \<noteq> []))"

text \<open>
  A playback that is not interrupted: after \<open>play\<close> only timer and frame callbacks run,
  the timer callbacks at engine times that do not decrease (\<open>prev\<close> is the time of the
  latest run of the scheduler), and each frame callback before the song position reaches
  the total duration.
\<close>

fun uninterrupted :: "real \<Rightarrow> real \<Rightarrow> real \<Rightarrow> event list \<Rightarrow> bool" where
  "uninterrupted anchor td prev [] = True"
| "uninterrupted anchor td prev (Timeout t # es) = (prev \<le> t \<and> uninterrupted anchor td t es)"
| "uninterrupted anchor td prev (Frame t # es) =
     (t - anchor < td \<and> uninterrupted anchor td prev es)"
| "uninterrupted anchor td prev (_ # es) = False"

text \<open>
  The timer callbacks are not late: each runs no more than one look-ahead window after
  the run of the scheduler before it (the nominal gap is 200 ms).
\<close>

fun timely :: "real \<Rightarrow> event list \<Rightarrow> bool" where
  "timely prev [] = True"
| "timely prev (Timeout t # es) = (t \<le> prev + LOOKAHEAD_SECS \<and> timely t es)"
| "timely prev (_ # es) = timely prev es"

text \<open>The engine time of the latest run of the scheduler.\<close>

fun last_tick :: "real \<Rightarrow> event list \<Rightarrow> real" where
  "last_tick prev [] = prev"
| "last_tick prev (Timeout t # es) = last_tick t es"
| "last_tick prev (_ # es) = last_tick prev es"

text \<open>
  A state of one playback: playing, with the anchor, the metadata and the timeline it
  started with, and a scheduler tick pending exactly while the cursor is inside the
  timeline.
\<close>

definition in_session :: "real \<Rightarrow> real \<Rightarrow> NoteData list \<Rightarrow> real \<Rightarrow> hook \<Rightarrow> bool" where
  "in_session anchor td timeline tp s =
     (consistent s \<and> playbackState s = Playing \<and> contextStartRef s = anchor \<and>
      totalDurationRef s = td \<and> sortedNotesRef s = timeline \<and> tempoRef s = tp \<and>
      (pending_timeouts s = [] \<longleftrightarrow> length timeline \<le> nextNoteIndexRef s))"

text \<open>
  The cursor has passed exactly the leading events that start no later than one
  look-ahead window after the song position of the latest run of the scheduler.
\<close>

definition scheduled_upto :: "real \<Rightarrow> NoteData list \<Rightarrow> real \<Rightarrow> hook \<Rightarrow> bool" where
  "scheduled_upto anchor timeline prev s =
     (nextNoteIndexRef s \<le> length timeline \<and>
      take (nextNoteIndexRef s) timeline =
        takeWhile (\<lambda>e. start_time e \<le> prev - anchor + LOOKAHEAD_SECS) timeline)"

text \<open>The sounding events among \<open>es\<close> whose start still lies ahead of engine time \<open>now\<close>.\<close>

definition ahead_of :: "real \<Rightarrow> real \<Rightarrow> NoteData list \<Rightarrow> NoteData list" where
  "ahead_of anchor now es =
     filter (\<lambda>e. \<not> endsWith_r (duration e) \<and> now < anchor + start_time e) es"

text \<open>
  At every engine time since the latest run of the scheduler, the oscillators held that
  have not started yet are the two of each passed sounding event whose start lies ahead,
  in timeline order, each at the anchor plus the start time of its event.
\<close>

definition ahead_ok :: "real \<Rightarrow> NoteData list \<Rightarrow> real \<Rightarrow> hook \<Rightarrow> bool" where
  "ahead_ok anchor timeline prev s =
     (\<forall>now\<ge>prev.
        map start_at (filter (\<lambda>v. now < start_at v) (tracked s)) =
        concat (map (\<lambda>e. [anchor + start_time e, anchor + start_time e])
          (ahead_of anchor now (take (nextNoteIndexRef s) timeline))))"

text \<open>
  The oscillators held that have not ended at engine time \<open>now\<close>, and the events that
  start within the look-ahead window at a song position.
\<close>

definition live_at :: "real \<Rightarrow> hook \<Rightarrow> Osc list" where
  "live_at now s = filter (\<lambda>v. now < stop_at v) (tracked s)"

definition window_events :: "real \<Rightarrow> NoteData list \<Rightarrow> NoteData list" where
  "window_events pos timeline =
     filter (\<lambda>e. pos \<le> start_time e \<and> start_time e \<le> pos + LOOKAHEAD_SECS) timeline"

text \<open>Two quarter notes further apart than the look-ahead window.\<close>

definition sparse_notes :: "NoteData list" where
  "sparse_notes =
     [\<lparr>pitch = ''C'', octave = 4, duration = ''q'', start_time = 0\<rparr>,
      \<lparr>pitch = ''D'', octave = 4, duration = ''q'', start_time = 2.1\<rparr>]"

definition sparse_hook :: hook where
  "sparse_hook = useAudioPlayback sparse_notes 120 3"

text \<open>
  Every oscillator created so far belongs to the hook's held set, and they are the voices,
  sounded exactly on time, of the sounding events the cursor has passed, in timeline order.
\<close>

definition on_time :: "real \<Rightarrow> real \<Rightarrow> NoteData list \<Rightarrow> hook \<Rightarrow> bool" where
  "on_time anchor tp timeline s =
     (ctx_oscillators s =
        concat (map (toneVoice anchor tp)
          (filter (\<lambda>e. \<not> endsWith_r (duration e)) (take (nextNoteIndexRef s) timeline))) \<and>
      tracked s = ctx_oscillators s)"

text \<open>
  The cursor has not moved back behind \<open>idx\<close>, and every oscillator held was created for
  an event at index \<open>idx\<close> or later.
\<close>

definition resumed_from :: "nat \<Rightarrow> real \<Rightarrow> real \<Rightarrow> NoteData list \<Rightarrow> hook \<Rightarrow> bool" where
  "resumed_from idx anchor tp timeline s =
     (idx \<le> nextNoteIndexRef s \<and>
      (\<forall>v\<in>set (tracked s). \<exists>e\<in>set (drop idx timeline). \<exists>t. v \<in> set (voice anchor t tp e)))"

text \<open>The hook holds every oscillator created so far.\<close>

definition all_held :: "hook \<Rightarrow> bool" where
  "all_held s = (oscsRef s = [0 ..< length (ctx_oscillators s)])"

text \<open>
  In a playback started at engine time \<open>t0\<close> with the cursor at \<open>idx\<close>, the cursor has
  passed the events from \<open>idx\<close> on that start within the look-ahead of the latest run of
  the scheduler, and the oscillators held are those a call of \<open>scheduleNote\<close> at \<open>t0\<close>
  creates for these events.
\<close>

definition resume_ok ::
  "nat \<Rightarrow> real \<Rightarrow> real \<Rightarrow> real \<Rightarrow> NoteData list \<Rightarrow> real \<Rightarrow> hook \<Rightarrow> bool" where
  "resume_ok idx anchor t0 tp timeline prev s =
     (t0 \<le> prev \<and>
      nextNoteIndexRef s =
        idx + length (due_from (prev - anchor + LOOKAHEAD_SECS) idx timeline) \<and>
      tracked s =
        concat (map (voice anchor t0 tp) (due_from (prev - anchor + LOOKAHEAD_SECS) idx timeline)))"

text \<open>Three quarter notes 2.5 s apart, with a total duration of 10 s.\<close>

definition spaced_notes :: "NoteData list" where
  "spaced_notes =
     [\<lparr>pitch = ''C'', octave = 4, duration = ''q'', start_time = 0\<rparr>,
      \<lparr>pitch = ''D'', octave = 4, duration = ''q'', start_time = 2.5\<rparr>,
      \<lparr>pitch = ''E'', octave = 4, duration = ''q'', start_time = 5\<rparr>]"

definition spaced_hook :: hook where
  "spaced_hook = useAudioPlayback spaced_notes 120 10"

text \<open>
  The events \<open>play\<close> passes in its own run of the scheduler, and the oscillators it
  creates for them: both are computed from the stored seek offset.
\<close>

definition play_due :: "hook \<Rightarrow> NoteData list" where
  "play_due s =
     due_from (seekOffsetRef s + LOOKAHEAD_SECS)
       (seekLoop (sortedNotesRef s) (seekOffsetRef s) 0) (sortedNotesRef s)"

definition play_voices :: "real \<Rightarrow> hook \<Rightarrow> Osc list" where
  "play_voices now s =
     concat (map (voice (now - seekOffsetRef s) now (tempoRef s)) (play_due s))"

text \<open>
  The example of the specification: at 120 beats per minute, a quarter C4 at 0 s, a
  quarter rest at 0.5 s and a quarter D4 at 1 s, with a total duration of 1.5 s.
\<close>

definition example_notes :: "NoteData list" where
  "example_notes =
     [\<lparr>pitch = ''C'', octave = 4, duration = ''q'', start_time = 0\<rparr>,
      \<lparr>pitch = ''C'', octave = 4, duration = ''qr'', start_time = 0.5\<rparr>,
      \<lparr>pitch = ''D'', octave = 4, duration = ''q'', start_time = 1\<rparr>]"

definition example_hook :: hook where
  "example_hook = useAudioPlayback example_notes 120 1.5"

section \<open>Properties of the utilities\<close>

lemma noteToFreq_table:
  "map_of NOTE_SEMITONES p = Some v \<Longrightarrow>
   noteToFreq p oct = 440 * 2 powr ((real_of_int ((oct + 1) * 12 + v) - 69) / 12)"
  by (simp add: noteToFreq_def)

lemma semitone_table_agrees:
  "p \<in> set chromatic_spellings \<Longrightarrow> map_of NOTE_SEMITONES p = Some (semitone_from_C p)"
  by (auto simp: chromatic_spellings_def NOTE_SEMITONES_def letter_semitone_def)

text \<open>
  C8. For every one of the seventeen pitch spellings and every integer octave,
  \<open>noteToFreq\<close> returns \<open>440 * 2 ^ ((midi - 69) / 12)\<close> with
  \<open>midi = (octave + 1) * 12 +\<close> the semitone offset of the pitch from C; and the sharp
  and the flat spelling of one pitch class give the same frequency at every octave.
\<close>

theorem C8_frequency_formula:
  "(p \<in> set chromatic_spellings \<longrightarrow>
      noteToFreq p oct =
        440 * 2 powr ((real_of_int ((oct + 1) * 12 + semitone_from_C p) - 69) / 12))
   \<and> noteToFreq ''C#'' oct = noteToFreq ''Db'' oct
   \<and> noteToFreq ''D#'' oct = noteToFreq ''Eb'' oct
   \<and> noteToFreq ''F#'' oct = noteToFreq ''Gb'' oct
   \<and> noteToFreq ''G#'' oct = noteToFreq ''Ab'' oct
   \<and> noteToFreq ''A#'' oct = noteToFreq ''Bb'' oct"
proof -
  have "noteToFreq p oct =
        440 * 2 powr ((real_of_int ((oct + 1) * 12 + semitone_from_C p) - 69) / 12)"
    if "p \<in> set chromatic_spellings"
    using noteToFreq_table [OF semitone_table_agrees [OF that]] .
  moreover have "noteToFreq ''C#'' oct = noteToFreq ''Db'' oct"
    by (simp add: noteToFreq_def NOTE_SEMITONES_def)
  moreover have "noteToFreq ''D#'' oct = noteToFreq ''Eb'' oct"
    by (simp add: noteToFreq_def NOTE_SEMITONES_def)
  moreover have "noteToFreq ''F#'' oct = noteToFreq ''Gb'' oct"
    by (simp add: noteToFreq_def NOTE_SEMITONES_def)
  moreover have "noteToFreq ''G#'' oct = noteToFreq ''Ab'' oct"
    by (simp add: noteToFreq_def NOTE_SEMITONES_def)
  moreover have "noteToFreq ''A#'' oct = noteToFreq ''Bb'' oct"
    by (simp add: noteToFreq_def NOTE_SEMITONES_def)
  ultimately show ?thesis by blast
qed

theorem C8_frequency_formula_witness:
  "''A'' \<in> set chromatic_spellings \<and> noteToFreq ''A'' 4 = 440
   \<and> noteToFreq ''C#'' 4 = noteToFreq ''Db'' 4"
  using C8_frequency_formula [of "''A''" 4]
  by (simp add: chromatic_spellings_def letter_semitone_def)

subsection \<open>Durations\<close>

lemma replace_first_absent: "c \<notin> set d \<Longrightarrow> replace_first c d = d"
  by (induction d) auto

lemma durationToSecs_table:
  "(c, b) \<in> set DURATION_BEATS \<Longrightarrow>
   durationToSecs c tp = b * 60 / tp \<and> durationToSecs (c @ ''r'') tp = b * 60 / tp"
  unfolding DURATION_BEATS_def durationToSecs_def
  by (elim disjE conjE | simp)+

lemma durationToSecs_default:
  "map_of DURATION_BEATS (replace_first CHR ''r'' d) = None \<Longrightarrow>
   durationToSecs d tp = 60 / tp"
  by (simp add: durationToSecs_def)

lemma durationToSecs_no_r:
  "CHR ''r'' \<notin> set d \<Longrightarrow> durationToSecs d tp = duration_to_seconds_spec d tp"
proof -
  assume a: "CHR ''r'' \<notin> set d"
  then have "\<not> endsWith_r d"
    by (cases d rule: rev_cases) (auto simp: endsWith_r_def)
  with a show ?thesis
    by (simp add: durationToSecs_def duration_to_seconds_spec_def strip_rest_suffix_def
        replace_first_absent split: option.splits)
qed

text \<open>
  C9. The duration rule should be total: the rest suffix is stripped, a code of the table
  gives its beats times \<open>60 / tempo\<close>, and a code that is not in the table counts one
  beat. The function has no failing branch, and the table codes, with and without the
  suffix, and every code without an \<open>r\<close> behave so (the lemmas above). But the source
  removes the first \<open>r\<close> of the code, not a final one: the code \<open>rw\<close> is no rest and is
  not in the table, and it is given the four beats of \<open>w\<close> instead of the one-beat
  default.
\<close>

theorem C9_first_r_not_suffix:
  "\<not> endsWith_r ''rw'' \<and> map_of DURATION_BEATS ''rw'' = None
   \<and> durationToSecs ''rw'' 120 = 2 \<and> duration_to_seconds_spec ''rw'' 120 = 1 / 2"
  by (simp add: durationToSecs_def duration_to_seconds_spec_def strip_rest_suffix_def
      endsWith_r_def DURATION_BEATS_def)

section \<open>The scheduler loop\<close>

lemma upt_append_len: "[a ..< a + m] @ [a + m ..< a + (m + n)] = [a ..< a + (m + n :: nat)]"
  using upt_add_eq_append [of a "a + m" n] by (simp add: add.assoc)

lemma scheduleNote_eq:
  "scheduleNote now e s =
     s\<lparr>ctx_oscillators := ctx_oscillators s @ voice (contextStartRef s) now (tempoRef s) e,
       oscsRef := oscsRef s @
         [length (ctx_oscillators s) ..<
          length (ctx_oscillators s) + length (voice (contextStartRef s) now (tempoRef s) e)]\<rparr>"
  by (simp add: scheduleNote_def voice_def Let_def upt_rec)

lemma due_from_step:
  assumes "i < length xs" and "start_time (xs ! i) \<le> u"
  shows "due_from u i xs = (xs ! i) # due_from u (Suc i) xs"
  using assms by (simp add: due_from_def Cons_nth_drop_Suc [symmetric])

lemma due_from_stop:
  assumes "\<not> (i < length xs \<and> start_time (xs ! i) \<le> u)"
  shows "due_from u i xs = []"
proof (cases "i < length xs")
  case True
  with assms show ?thesis
    by (simp add: due_from_def Cons_nth_drop_Suc [symmetric])
next
  case False
  then show ?thesis by (simp add: due_from_def)
qed

lemma schedLoop_eq:
  "schedLoop now u s =
     (let due = due_from u (nextNoteIndexRef s) (sortedNotesRef s);
          vs = concat (map (voice (contextStartRef s) now (tempoRef s)) due);
          n = length (ctx_oscillators s)
      in s\<lparr>nextNoteIndexRef := nextNoteIndexRef s + length due,
           ctx_oscillators := ctx_oscillators s @ vs,
           oscsRef := oscsRef s @ [n ..< n + length vs]\<rparr>)"
proof (induction now u s rule: schedLoop.induct)
  case (1 now u s)
  define i where "i = nextNoteIndexRef s"
  define xs where "xs = sortedNotesRef s"
  define v where "v = voice (contextStartRef s) now (tempoRef s)"
  show ?case
  proof (cases "i < length xs \<and> start_time (xs ! i) \<le> u")
    case True
    define s' where "s' = (scheduleNote now (xs ! i) s)\<lparr>nextNoteIndexRef := i + 1\<rparr>"
    define vs where "vs = concat (map v (due_from u (Suc i) xs))"
    have s': "s' = s\<lparr>nextNoteIndexRef := Suc i,
           ctx_oscillators := ctx_oscillators s @ v (xs ! i),
           oscsRef := oscsRef s @
             [length (ctx_oscillators s) ..< length (ctx_oscillators s) + length (v (xs ! i))]\<rparr>"
      by (simp add: s'_def scheduleNote_eq v_def)
    have step: "schedLoop now u s = schedLoop now u s'"
      using True by (subst schedLoop.simps) (simp add: s'_def i_def xs_def Let_def scheduleNote_eq)
    have ih: "schedLoop now u s' =
      s'\<lparr>nextNoteIndexRef := Suc i + length (due_from u (Suc i) xs),
           ctx_oscillators := ctx_oscillators s' @ vs,
           oscsRef := oscsRef s' @ [length (ctx_oscillators s') ..< length (ctx_oscillators s') + length vs]\<rparr>"
      using "1.IH" [of "scheduleNote now (xs ! i) s"] True
      by (simp add: s'_def i_def xs_def v_def vs_def scheduleNote_eq Let_def)
    have due: "due_from u i xs = (xs ! i) # due_from u (Suc i) xs"
      using True by (simp add: due_from_step)
    have upt: "[length (ctx_oscillators s) ..< length (ctx_oscillators s) + length (v (xs ! i))] @
       [length (ctx_oscillators s) + length (v (xs ! i)) ..<
        length (ctx_oscillators s) + length (v (xs ! i)) + length vs] =
       [length (ctx_oscillators s) ..< length (ctx_oscillators s) + (length (v (xs ! i)) + length vs)]"
      using upt_append_len [of "length (ctx_oscillators s)" "length (v (xs ! i))" "length vs"]
      by (simp add: add.assoc)
    have "s'\<lparr>nextNoteIndexRef := Suc i + length (due_from u (Suc i) xs),
           ctx_oscillators := ctx_oscillators s' @ vs,
           oscsRef := oscsRef s' @ [length (ctx_oscillators s') ..< length (ctx_oscillators s') + length vs]\<rparr> =
       s\<lparr>nextNoteIndexRef := i + length (due_from u i xs),
           ctx_oscillators := ctx_oscillators s @ concat (map v (due_from u i xs)),
           oscsRef := oscsRef s @
             [length (ctx_oscillators s) ..<
              length (ctx_oscillators s) + length (concat (map v (due_from u i xs)))]\<rparr>"
      unfolding due s' by (simp add: upt vs_def [symmetric])
    with step ih have "schedLoop now u s =
       s\<lparr>nextNoteIndexRef := i + length (due_from u i xs),
           ctx_oscillators := ctx_oscillators s @ concat (map v (due_from u i xs)),
           oscsRef := oscsRef s @
             [length (ctx_oscillators s) ..<
              length (ctx_oscillators s) + length (concat (map v (due_from u i xs)))]\<rparr>"
      by simp
    then show ?thesis
      by (simp add: Let_def i_def xs_def v_def)
  next
    case False
    then have "schedLoop now u s = s"
      by (subst schedLoop.simps) (auto simp: i_def xs_def)
    moreover have "due_from u i xs = []"
      using False by (rule due_from_stop)
    ultimately show ?thesis by (simp add: i_def xs_def)
  qed
qed


section \<open>Reachable states\<close>

lemma length_stop_osc [simp]: "length (stop_osc ns i) = length ns"
  by (simp add: stop_osc_def)

lemma length_foldl_stop_osc [simp]: "length (foldl stop_osc ns is) = length ns"
  by (induction "is" arbitrary: ns) auto

lemma foldl_stop_osc_other:
  "j \<notin> set is \<Longrightarrow> foldl stop_osc ns is ! j = ns ! j"
  by (induction "is" arbitrary: ns) (auto simp: stop_osc_def)

lemma stop_at_stop_osc_keeps:
  "j < length ns \<Longrightarrow> stop_at (ns ! j) = 0 \<Longrightarrow> stop_at (stop_osc ns i ! j) = 0"
  by (cases "i = j") (auto simp: stop_osc_def)

lemma foldl_stop_osc_keeps:
  "j < length ns \<Longrightarrow> stop_at (ns ! j) = 0 \<Longrightarrow> stop_at (foldl stop_osc ns is ! j) = 0"
  by (induction "is" arbitrary: ns) (auto simp: stop_at_stop_osc_keeps)

lemma foldl_stop_osc_stopped:
  "j \<in> set is \<Longrightarrow> j < length ns \<Longrightarrow> stop_at (foldl stop_osc ns is ! j) = 0"
proof (induction "is" arbitrary: ns)
  case Nil
  then show ?case by simp
next
  case (Cons i "is")
  show ?case
  proof (cases "i = j")
    case True
    with Cons.prems have "stop_at (stop_osc ns i ! j) = 0"
      by (simp add: stop_osc_def)
    with Cons.prems show ?thesis
      by (simp add: foldl_stop_osc_keeps)
  next
    case False
    with Cons show ?thesis by simp
  qed
qed

lemma consistent_init: "consistent (useAudioPlayback notes tp td)"
  by (simp add: consistent_def useAudioPlayback_def handle_ok_def settled_def)

lemma consistent_stop: "consistent s \<Longrightarrow> consistent (stop s)"
  by (auto simp: consistent_def stop_def cancelRaf_def cancelScheduler_def killOscillators_def
      handle_ok_def settled_def split: option.splits)

lemma consistent_pause: "consistent s \<Longrightarrow> consistent (pause now s)"
  by (auto simp: consistent_def pause_def cancelRaf_def cancelScheduler_def killOscillators_def
      handle_ok_def settled_def Let_def split: option.splits)

lemma runScheduler_eq:
  "runScheduler now s =
     (let u = now - contextStartRef s + LOOKAHEAD_SECS;
          due = due_from u (nextNoteIndexRef s) (sortedNotesRef s);
          vs = concat (map (voice (contextStartRef s) now (tempoRef s)) due);
          n = length (ctx_oscillators s);
          s' = s\<lparr>nextNoteIndexRef := nextNoteIndexRef s + length due,
                 ctx_oscillators := ctx_oscillators s @ vs,
                 oscsRef := oscsRef s @ [n ..< n + length vs]\<rparr>
      in if nextNoteIndexRef s + length due < length (sortedNotesRef s) then setTimeout s' else s')"
  by (simp add: runScheduler_def schedLoop_eq Let_def)

lemma consistent_runScheduler:
  "consistent s \<Longrightarrow> pending_timeouts s = [] \<Longrightarrow> playbackState s = Playing \<Longrightarrow> consistent (runScheduler now s)"
  by (auto simp: consistent_def runScheduler_eq setTimeout_def Let_def handle_ok_def settled_def
        list_all_iff split: option.splits)


lemma consistent_play: "consistent s \<Longrightarrow> consistent (play now s)"
  by (auto simp: consistent_def play_def runScheduler_eq setTimeout_def requestAnimationFrame_def
        cancelRaf_def cancelScheduler_def killOscillators_def Let_def handle_ok_def settled_def
        list_all_iff split: option.splits)

lemma consistent_fire_timeout: "consistent s \<Longrightarrow> consistent (fire_timeout now s)"
proof (cases "pending_timeouts s")
  case Nil
  then show "consistent s \<Longrightarrow> ?thesis" by (simp add: fire_timeout_def)
next
  case (Cons h hs)
  assume c: "consistent s"
  with Cons have hs: "hs = []" and st: "playbackState s = Playing"
    by (cases "playbackState s"; auto simp: consistent_def handle_ok_def settled_def split: option.splits)+
  have "consistent (s\<lparr>pending_timeouts := []\<rparr>)"
    using c by (auto simp: consistent_def handle_ok_def settled_def split: option.splits)
  then have "consistent (runScheduler now (s\<lparr>pending_timeouts := []\<rparr>))"
    using st by (intro consistent_runScheduler) simp_all
  with Cons hs show ?thesis by (simp add: fire_timeout_def)
qed

lemma consistent_tick:
  "consistent s \<Longrightarrow> pending_frames s = [h] \<Longrightarrow>
   consistent (tick now (s\<lparr>pending_frames := []\<rparr>))"
  by (cases "playbackState s")
     (auto simp: consistent_def tick_def requestAnimationFrame_def
        cancelRaf_def cancelScheduler_def killOscillators_def Let_def handle_ok_def settled_def
        list_all_iff split: option.splits)

lemma consistent_fire_frame: "consistent s \<Longrightarrow> consistent (fire_frame now s)"
proof (cases "pending_frames s")
  case Nil
  then show "consistent s \<Longrightarrow> ?thesis" by (simp add: fire_frame_def)
next
  case (Cons h hs)
  assume c: "consistent s"
  with Cons have hs: "hs = []"
    by (auto simp: consistent_def handle_ok_def split: option.splits)
  with c Cons have "consistent (tick now (s\<lparr>pending_frames := []\<rparr>))"
    by (intro consistent_tick) simp_all
  with Cons hs show ?thesis by (simp add: fire_frame_def)
qed

lemma consistent_step: "consistent s \<Longrightarrow> consistent (step e s)"
  by (cases e) (simp_all add: consistent_play consistent_pause consistent_stop
      consistent_fire_timeout consistent_fire_frame)

lemma consistent_run: "consistent s \<Longrightarrow> consistent (run es s)"
  by (induction es arbitrary: s) (simp_all add: consistent_step)

lemma consistent_reachable: "consistent (run es (useAudioPlayback notes tp td))"
  by (simp add: consistent_run consistent_init)


section \<open>The controls\<close>

lemma kill_fields [simp]:
  "oscsRef (killOscillators s) = []"
  "pending_timeouts (killOscillators s) = pending_timeouts s"
  "pending_frames (killOscillators s) = pending_frames s"
  "schedulerTimerRef (killOscillators s) = schedulerTimerRef s"
  "rafRef (killOscillators s) = rafRef s"
  "length (ctx_oscillators (killOscillators s)) = length (ctx_oscillators s)"
  by (simp_all add: killOscillators_def)

lemma cancel_pending:
  "consistent s \<Longrightarrow> pending_timeouts (cancelScheduler s) = []"
  "consistent s \<Longrightarrow> pending_frames (cancelRaf s) = []"
  by (auto simp: consistent_def handle_ok_def cancelScheduler_def cancelRaf_def split: option.splits)

lemma killed_stopped:
  assumes "list_all (\<lambda>i. i < length (ctx_oscillators s)) (oscsRef s)"
  shows "list_all (\<lambda>i. stop_at (ctx_oscillators (killOscillators s) ! i) = 0) (oscsRef s)"
  using assms by (auto simp: list_all_iff killOscillators_def foldl_stop_osc_stopped)

lemma seekLoop_eq:
  "seekLoop xs p i = i + length (takeWhile (\<lambda>e. start_time e < p - 0.02) (drop i xs))"
proof (induction xs p i rule: seekLoop.induct)
  case (1 xs p i)
  show ?case
  proof (cases "i < length xs \<and> start_time (xs ! i) < p - 0.02")
    case True
    then have "seekLoop xs p i = seekLoop xs p (i + 1)"
      by (subst seekLoop.simps) simp
    with "1.IH" True show ?thesis
      by (simp add: Cons_nth_drop_Suc [symmetric])
  next
    case False
    then have "seekLoop xs p i = i"
      by (subst seekLoop.simps) auto
    with False show ?thesis
      by (cases "i < length xs") (simp_all add: Cons_nth_drop_Suc [symmetric])
  qed
qed

lemmas eval_defs =
  play_def pause_def stop_def tick_def fire_timeout_def fire_frame_def runScheduler_eq seekLoop_eq
  due_from_def voice_def endsWith_r_def Let_def cancelRaf_def cancelScheduler_def
  killOscillators_def setTimeout_def requestAnimationFrame_def useAudioPlayback_def
  LOOKAHEAD_SECS_def stop_osc_def


lemma cancel_fields [simp]:
  "seekOffsetRef (cancelRaf s) = seekOffsetRef s"
  "seekOffsetRef (cancelScheduler s) = seekOffsetRef s"
  "seekOffsetRef (killOscillators s) = seekOffsetRef s"
  "sortedNotesRef (cancelRaf s) = sortedNotesRef s"
  "sortedNotesRef (cancelScheduler s) = sortedNotesRef s"
  "sortedNotesRef (killOscillators s) = sortedNotesRef s"
  "tempoRef (cancelRaf s) = tempoRef s"
  "tempoRef (cancelScheduler s) = tempoRef s"
  "tempoRef (killOscillators s) = tempoRef s"
  "oscsRef (cancelRaf s) = oscsRef s"
  "oscsRef (cancelScheduler s) = oscsRef s"
  "ctx_oscillators (cancelRaf s) = ctx_oscillators s"
  "ctx_oscillators (cancelScheduler s) = ctx_oscillators s"
  "ctx_oscillators (killOscillators s) = foldl stop_osc (ctx_oscillators s) (oscsRef s)"
  by (simp_all add: cancelRaf_def cancelScheduler_def killOscillators_def split: option.splits)

lemma play_clock:
  "contextStartRef (play now s) = now - seekOffsetRef s"
  "seekOffsetRef (play now s) = seekOffsetRef s"
  "playbackState (play now s) = Playing"
  "audioCtxRef (play now s)"
  "sortedNotesRef (play now s) = sortedNotesRef s"
  "tempoRef (play now s) = tempoRef s"
  "totalDurationRef (play now s) = totalDurationRef s"
  "currentTime (play now s) = currentTime s"
  by (simp_all add: play_def runScheduler_eq Let_def setTimeout_def requestAnimationFrame_def
      cancelRaf_def cancelScheduler_def killOscillators_def split: option.splits)

lemma play_scheduled:
  "nextNoteIndexRef (play now s) =
     seekLoop (sortedNotesRef s) (seekOffsetRef s) 0 + length (play_due s)"
  "ctx_oscillators (play now s) =
     foldl stop_osc (ctx_oscillators s) (oscsRef s) @ play_voices now s"
  "oscsRef (play now s) =
     [length (ctx_oscillators s) ..< length (ctx_oscillators s) + length (play_voices now s)]"
  by (simp_all add: play_def runScheduler_eq Let_def setTimeout_def requestAnimationFrame_def
      play_due_def play_voices_def)

lemma map_nth_append_upt:
  "map (\<lambda>i. (ns @ vs) ! i) [length ns ..< length ns + length vs] = vs"
proof -
  have "map (\<lambda>i. (ns @ vs) ! i) [length ns ..< length ns + length vs] =
        map (\<lambda>i. vs ! i) [0 ..< length vs]"
    by (rule nth_equalityI) (simp_all add: nth_append)
  then show ?thesis by (simp add: map_nth)
qed

lemma play_tracked: "tracked (play now s) = play_voices now s"
  using map_nth_append_upt [of "foldl stop_osc (ctx_oscillators s) (oscsRef s)" "play_voices now s"]
  by (simp add: tracked_def play_scheduled)

lemma play_pending:
  assumes "consistent s"
  shows "pending_timeouts (play now s) =
           (if nextNoteIndexRef (play now s) < length (sortedNotesRef s)
            then [next_timeout_id s] else [])"
    and "pending_frames (play now s) = [next_frame_id s]"
    and "list_all (\<lambda>h. h \<notin> set (pending_timeouts (play now s))) (pending_timeouts s)"
    and "list_all (\<lambda>h. h \<notin> set (pending_frames (play now s))) (pending_frames s)"
  using assms
  by (auto simp: play_def runScheduler_eq Let_def setTimeout_def requestAnimationFrame_def
      cancelRaf_def cancelScheduler_def killOscillators_def consistent_def handle_ok_def
      split: option.splits)



lemma stop_stop: "stop (stop s) = stop s"
  by (simp add: stop_def cancelRaf_def cancelScheduler_def killOscillators_def split: option.splits)

lemma stop_idle: "consistent s \<Longrightarrow> playbackState s = Idle \<Longrightarrow> stop s = s"
  by (simp add: stop_def cancelRaf_def cancelScheduler_def killOscillators_def consistent_def
      settled_def)

lemma pause_same_instant: "pause now (pause now s) = pause now s"
  by (simp add: pause_def cancelRaf_def cancelScheduler_def killOscillators_def Let_def
      split: option.splits)

lemma pause_position:
  "audioCtxRef s \<Longrightarrow> currentTime (pause now s) = now - contextStartRef s"
  "audioCtxRef s \<Longrightarrow> seekOffsetRef (pause now s) = now - contextStartRef s"
  "audioCtxRef s \<Longrightarrow> playbackState (pause now s) = Paused"
  "contextStartRef (pause now s) = contextStartRef s"
  "audioCtxRef (pause now s) = audioCtxRef s"
  by (simp_all add: pause_def cancelRaf_def cancelScheduler_def killOscillators_def Let_def
      split: option.splits)

lemma stop_fields:
  "contextStartRef (stop s) = contextStartRef s"
  "audioCtxRef (stop s) = audioCtxRef s"
  "playbackState (stop s) = Idle"
  "currentTime (stop s) = 0"
  by (simp_all add: stop_def cancelRaf_def cancelScheduler_def killOscillators_def
      split: option.splits)

section \<open>Stop and pause\<close>

text \<open>
  C5. After \<open>stop\<close>, from every state the hook can reach (idle, playing or paused), the
  reported position is 0, the state is idle, the live-voice set is empty, every oscillator
  it held has been told to stop at once, and no scheduler tick and no frame callback is
  pending.
\<close>

theorem C5_stop_resets:
  "currentTime (stop (run es (useAudioPlayback notes tp td))) = 0
   \<and> playbackState (stop (run es (useAudioPlayback notes tp td))) = Idle
   \<and> oscsRef (stop (run es (useAudioPlayback notes tp td))) = []
   \<and> list_all (\<lambda>i. stop_at (ctx_oscillators (stop (run es (useAudioPlayback notes tp td))) ! i) = 0)
        (oscsRef (run es (useAudioPlayback notes tp td)))
   \<and> pending_timeouts (stop (run es (useAudioPlayback notes tp td))) = []
   \<and> pending_frames (stop (run es (useAudioPlayback notes tp td))) = []"
proof -
  define s where "s = run es (useAudioPlayback notes tp td)"
  have c: "consistent s"
    unfolding s_def by (rule consistent_reachable)
  have k: "list_all (\<lambda>i. stop_at (ctx_oscillators (stop s) ! i) = 0) (oscsRef s)"
  proof -
    have "list_all (\<lambda>i. i < length (ctx_oscillators (cancelScheduler (cancelRaf s))))
            (oscsRef (cancelScheduler (cancelRaf s)))"
      using c by (auto simp: consistent_def cancelScheduler_def cancelRaf_def split: option.splits)
    from killed_stopped [OF this] show ?thesis
      by (auto simp: stop_def cancelScheduler_def cancelRaf_def split: option.splits)
  qed
  have t: "pending_timeouts (stop s) = []"
    using c by (auto simp: stop_def consistent_def handle_ok_def cancelScheduler_def cancelRaf_def
        split: option.splits)
  have f: "pending_frames (stop s) = []"
    using c by (auto simp: stop_def consistent_def handle_ok_def cancelScheduler_def cancelRaf_def
        split: option.splits)
  have "currentTime (stop s) = 0 \<and> playbackState (stop s) = Idle \<and> oscsRef (stop s) = []"
    by (simp add: stop_def)
  with k t f show ?thesis
    unfolding s_def by simp
qed


theorem C5_stop_resets_witness:
  "playbackState (run [Play 0] example_hook) = Playing
   \<and> oscsRef (run [Play 0] example_hook) = [0, 1, 2, 3]
   \<and> pending_frames (run [Play 0] example_hook) = [1]
   \<and> currentTime (stop (run [Play 0] example_hook)) = 0
   \<and> playbackState (stop (run [Play 0] example_hook)) = Idle
   \<and> oscsRef (stop (run [Play 0] example_hook)) = []
   \<and> stop_at (ctx_oscillators (stop (run [Play 0] example_hook)) ! 0) = 0
   \<and> stop_at (ctx_oscillators (stop (run [Play 0] example_hook)) ! 2) = 0
   \<and> pending_timeouts (stop (run [Play 0] example_hook)) = []
   \<and> pending_frames (stop (run [Play 0] example_hook)) = []"
proof -
  have a: "oscsRef (run [Play 0] example_hook) = [0, 1, 2, 3]"
    by (simp add: eval_defs example_hook_def example_notes_def upt_rec)
  have b: "pending_frames (run [Play 0] example_hook) = [1]"
    by (simp add: eval_defs example_hook_def example_notes_def)
  show ?thesis
    using C5_stop_resets [of "[Play 0]" example_notes 120 "1.5"] a b
    by (simp add: example_hook_def play_clock)
qed

text \<open>
  C6. A second \<open>pause\<close> while paused, or a \<open>stop\<close> while idle, should leave the
  playback state, the reported position and the voice set as they are. \<open>stop\<close> does
  (\<open>stop_stop\<close>, \<open>stop_idle\<close>), and so does a \<open>pause\<close> repeated at one engine instant
  (\<open>pause_same_instant\<close>). But \<open>pause\<close> does not look at the playback state: it reads
  the position off the running engine clock each time. Paused at 1 s, a second \<open>pause\<close>
  two seconds later reports 3 s; and after \<open>stop\<close>, a \<open>pause\<close> leaves the idle state
  for the paused state, at the engine time elapsed since the anchor.
\<close>

theorem C6_pause_not_idempotent:
  "playbackState (run [Play 0, Pause 1] example_hook) = Paused
   \<and> currentTime (run [Play 0, Pause 1] example_hook) = 1
   \<and> playbackState (run [Play 0, Pause 1, Pause 3] example_hook) = Paused
   \<and> currentTime (run [Play 0, Pause 1, Pause 3] example_hook) = 3
   \<and> playbackState (run [Play 0, Stop] example_hook) = Idle
   \<and> currentTime (run [Play 0, Stop] example_hook) = 0
   \<and> playbackState (run [Play 0, Stop, Pause 5] example_hook) = Paused
   \<and> currentTime (run [Play 0, Stop, Pause 5] example_hook) = 5"
  by (simp add: pause_position play_clock stop_fields example_hook_def useAudioPlayback_def)


section \<open>The end of the song\<close>

lemma tick_end:
  assumes "audioCtxRef s" and "totalDurationRef s \<le> now - contextStartRef s"
  shows "tick now s =
     (cancelRaf (killOscillators (cancelScheduler (s\<lparr>currentTime := totalDurationRef s\<rparr>))))
       \<lparr>seekOffsetRef := 0, playbackState := Idle, currentTime := 0\<rparr>"
  using assms by (simp add: tick_def Let_def min_def)

lemma tick_running:
  assumes "audioCtxRef s" and "now - contextStartRef s < totalDurationRef s"
  shows "tick now s = requestAnimationFrame (s\<lparr>currentTime := now - contextStartRef s\<rparr>)"
  using assms by (simp add: tick_def Let_def min_def)

text \<open>
  C4, as the source has it. When a frame callback finds the song position at or past the
  total duration while playing, the hook goes idle: no scheduler tick and no frame
  callback stays pending, the live-voice set is emptied and every oscillator it held is
  told to stop at once, and the reported position and the seek offset are reset to 0. The
  position is set to the duration and then to 0 within the same callback, so the value
  that stays is 0.
\<close>

theorem C4_song_end:
  assumes "s = run es (useAudioPlayback notes tp td)"
    and "playbackState s = Playing"
    and "totalDurationRef s \<le> now - contextStartRef s"
  shows "playbackState (fire_frame now s) = Idle
     \<and> pending_timeouts (fire_frame now s) = []
     \<and> pending_frames (fire_frame now s) = []
     \<and> oscsRef (fire_frame now s) = []
     \<and> list_all (\<lambda>i. stop_at (ctx_oscillators (fire_frame now s) ! i) = 0) (oscsRef s)
     \<and> currentTime (fire_frame now s) = 0
     \<and> seekOffsetRef (fire_frame now s) = 0"
proof -
  have c: "consistent s"
    unfolding assms(1) by (rule consistent_reachable)
  with assms(2) obtain h where h: "pending_frames s = [h]" and ctx: "audioCtxRef s"
    by (auto simp: consistent_def handle_ok_def split: option.splits)
  define s0 where "s0 = s\<lparr>pending_frames := []\<rparr>"
  have ff: "fire_frame now s =
     (cancelRaf (killOscillators (cancelScheduler (s0\<lparr>currentTime := totalDurationRef s\<rparr>))))
       \<lparr>seekOffsetRef := 0, playbackState := Idle, currentTime := 0\<rparr>"
    using tick_end [of s0 now] assms(3) ctx h by (simp add: fire_frame_def s0_def)
  have t: "pending_timeouts (fire_frame now s) = []"
    using c unfolding ff
    by (auto simp: s0_def consistent_def handle_ok_def cancelScheduler_def cancelRaf_def
        split: option.splits)
  have f: "pending_frames (fire_frame now s) = []"
    unfolding ff by (auto simp: s0_def cancelScheduler_def cancelRaf_def split: option.splits)
  have k: "list_all (\<lambda>i. stop_at (ctx_oscillators (fire_frame now s) ! i) = 0) (oscsRef s)"
    using c unfolding ff
    by (auto simp: s0_def list_all_iff consistent_def foldl_stop_osc_stopped)
  have "playbackState (fire_frame now s) = Idle \<and> oscsRef (fire_frame now s) = []
     \<and> currentTime (fire_frame now s) = 0 \<and> seekOffsetRef (fire_frame now s) = 0"
    unfolding ff by (simp add: cancelRaf_def split: option.splits)
  with t f k show ?thesis by simp
qed

theorem C4_song_end_witness:
  "playbackState (run [Play 0] example_hook) = Playing
   \<and> totalDurationRef (run [Play 0] example_hook) \<le> 1.5 - contextStartRef (run [Play 0] example_hook)
   \<and> oscsRef (run [Play 0] example_hook) = [0, 1, 2, 3]
   \<and> playbackState (fire_frame 1.5 (run [Play 0] example_hook)) = Idle
   \<and> pending_timeouts (fire_frame 1.5 (run [Play 0] example_hook)) = []
   \<and> pending_frames (fire_frame 1.5 (run [Play 0] example_hook)) = []
   \<and> oscsRef (fire_frame 1.5 (run [Play 0] example_hook)) = []
   \<and> stop_at (ctx_oscillators (fire_frame 1.5 (run [Play 0] example_hook)) ! 2) = 0
   \<and> currentTime (fire_frame 1.5 (run [Play 0] example_hook)) = 0"
proof -
  have a: "oscsRef (run [Play 0] example_hook) = [0, 1, 2, 3]"
    by (simp add: eval_defs example_hook_def example_notes_def upt_rec)
  have b: "playbackState (run [Play 0] example_hook) = Playing"
    "totalDurationRef (run [Play 0] example_hook) \<le> 1.5 - contextStartRef (run [Play 0] example_hook)"
    by (simp_all add: play_clock example_hook_def useAudioPlayback_def)
  show ?thesis
    using C4_song_end [of "run [Play 0] example_hook" "[Play 0]" example_notes 120 "1.5" "1.5"] a b
    by (simp add: example_hook_def)
qed

text \<open>
  C4 as stated fails: after the example has played to its end at 1.5 s, the hook is idle
  and reports position 0, not the duration.
\<close>

theorem C4_position_not_frozen:
  "playbackState (run [Play 0, Frame 1.5] example_hook) = Idle
   \<and> totalDurationRef (run [Play 0, Frame 1.5] example_hook) = 1.5
   \<and> currentTime (run [Play 0, Frame 1.5] example_hook) = 0"
  by (simp add: eval_defs example_hook_def example_notes_def)

section \<open>Play while playing\<close>




section \<open>One playback, step by step\<close>

lemma tracked_append:
  assumes "list_all (\<lambda>i. i < length ns) is"
  shows "map (\<lambda>i. (ns @ vs) ! i) (is @ [length ns ..< length ns + length vs]) =
         map (\<lambda>i. ns ! i) is @ vs"
proof -
  have "map (\<lambda>i. (ns @ vs) ! i) is = map (\<lambda>i. ns ! i) is"
    using assms by (auto simp: list_all_iff nth_append)
  then show ?thesis
    by (simp add: map_nth_append_upt)
qed

lemma runScheduler_fields:
  "contextStartRef (runScheduler now s) = contextStartRef s"
  "sortedNotesRef (runScheduler now s) = sortedNotesRef s"
  "tempoRef (runScheduler now s) = tempoRef s"
  "totalDurationRef (runScheduler now s) = totalDurationRef s"
  "playbackState (runScheduler now s) = playbackState s"
  "audioCtxRef (runScheduler now s) = audioCtxRef s"
  "pending_frames (runScheduler now s) = pending_frames s"
  "nextNoteIndexRef (runScheduler now s) =
     nextNoteIndexRef s +
       length (due_from (now - contextStartRef s + LOOKAHEAD_SECS) (nextNoteIndexRef s) (sortedNotesRef s))"
  "ctx_oscillators (runScheduler now s) =
     ctx_oscillators s @
       concat (map (voice (contextStartRef s) now (tempoRef s))
         (due_from (now - contextStartRef s + LOOKAHEAD_SECS) (nextNoteIndexRef s) (sortedNotesRef s)))"
  by (simp_all add: runScheduler_eq Let_def setTimeout_def)

lemma runScheduler_tracked:
  assumes "list_all (\<lambda>i. i < length (ctx_oscillators s)) (oscsRef s)"
  shows "tracked (runScheduler now s) =
     tracked s @
       concat (map (voice (contextStartRef s) now (tempoRef s))
         (due_from (now - contextStartRef s + LOOKAHEAD_SECS) (nextNoteIndexRef s) (sortedNotesRef s)))"
  using tracked_append [OF assms]
  by (simp add: tracked_def runScheduler_eq Let_def setTimeout_def)

lemma runScheduler_pending:
  assumes "pending_timeouts s = []"
  shows "pending_timeouts (runScheduler now s) = [] \<longleftrightarrow>
         length (sortedNotesRef s) \<le> nextNoteIndexRef (runScheduler now s)"
  using assms by (simp add: runScheduler_eq Let_def setTimeout_def)

lemma due_from_exhausted: "length xs \<le> i \<Longrightarrow> due_from u i xs = []"
  by (simp add: due_from_def)

lemma fire_timeout_eq:
  assumes "consistent s"
  shows "fire_timeout t s =
     (if pending_timeouts s = [] then s else runScheduler t (s\<lparr>pending_timeouts := []\<rparr>))"
  using assms
  by (auto simp: fire_timeout_def consistent_def handle_ok_def split: list.splits option.splits)

lemma session_timeout:
  assumes "in_session anchor td xs tp s"
  shows "in_session anchor td xs tp (fire_timeout t s)"
    and "nextNoteIndexRef (fire_timeout t s) =
           nextNoteIndexRef s + length (due_from (t - anchor + LOOKAHEAD_SECS) (nextNoteIndexRef s) xs)"
    and "tracked (fire_timeout t s) =
           tracked s @ concat (map (voice anchor t tp)
             (due_from (t - anchor + LOOKAHEAD_SECS) (nextNoteIndexRef s) xs))"
    and "ctx_oscillators (fire_timeout t s) =
           ctx_oscillators s @ concat (map (voice anchor t tp)
             (due_from (t - anchor + LOOKAHEAD_SECS) (nextNoteIndexRef s) xs))"
proof -
  have c: "consistent s" and f: "contextStartRef s = anchor" "sortedNotesRef s = xs" "tempoRef s = tp"
    "totalDurationRef s = td" "playbackState s = Playing"
    and p: "pending_timeouts s = [] \<longleftrightarrow> length xs \<le> nextNoteIndexRef s"
    using assms by (simp_all add: in_session_def)
  define s0 where "s0 = s\<lparr>pending_timeouts := []\<rparr>"
  define due where "due = due_from (t - anchor + LOOKAHEAD_SECS) (nextNoteIndexRef s) xs"
  have ft: "fire_timeout t s = (if pending_timeouts s = [] then s else runScheduler t s0)"
    unfolding s0_def using c by (rule fire_timeout_eq)
  have idle: "due = []" if "pending_timeouts s = []"
    using that p by (simp add: due_def due_from_exhausted)
  have b: "list_all (\<lambda>i. i < length (ctx_oscillators s0)) (oscsRef s0)"
    using c by (simp add: consistent_def s0_def)
  have tr: "tracked s0 = tracked s"
    by (simp add: tracked_def s0_def)
  have "consistent (fire_timeout t s)"
    using c by (rule consistent_fire_timeout)
  moreover have "pending_timeouts (runScheduler t s0) = [] \<longleftrightarrow>
         length (sortedNotesRef s0) \<le> nextNoteIndexRef (runScheduler t s0)"
    by (rule runScheduler_pending) (simp add: s0_def)
  ultimately show "in_session anchor td xs tp (fire_timeout t s)"
    using f p by (simp add: in_session_def ft runScheduler_fields(1-7) s0_def)
  have "nextNoteIndexRef (fire_timeout t s) = nextNoteIndexRef s + length due"
    using f idle by (simp add: ft runScheduler_fields s0_def due_def)
  then show "nextNoteIndexRef (fire_timeout t s) =
           nextNoteIndexRef s + length (due_from (t - anchor + LOOKAHEAD_SECS) (nextNoteIndexRef s) xs)"
    by (simp add: due_def)
  have "tracked (fire_timeout t s) = tracked s @ concat (map (voice anchor t tp) due)"
    using f runScheduler_tracked [OF b, of t] tr idle by (simp add: ft s0_def due_def)
  then show "tracked (fire_timeout t s) =
           tracked s @ concat (map (voice anchor t tp)
             (due_from (t - anchor + LOOKAHEAD_SECS) (nextNoteIndexRef s) xs))"
    by (simp add: due_def)
  have "ctx_oscillators (fire_timeout t s) = ctx_oscillators s @ concat (map (voice anchor t tp) due)"
    using f idle by (simp add: ft runScheduler_fields s0_def due_def)
  then show "ctx_oscillators (fire_timeout t s) =
           ctx_oscillators s @ concat (map (voice anchor t tp)
             (due_from (t - anchor + LOOKAHEAD_SECS) (nextNoteIndexRef s) xs))"
    by (simp add: due_def)
qed

lemma session_frame:
  assumes "in_session anchor td xs tp s" and "t - anchor < td"
  shows "in_session anchor td xs tp (fire_frame t s)"
    and "nextNoteIndexRef (fire_frame t s) = nextNoteIndexRef s"
    and "tracked (fire_frame t s) = tracked s"
    and "ctx_oscillators (fire_frame t s) = ctx_oscillators s"
proof -
  have c: "consistent s" and f: "contextStartRef s = anchor" "sortedNotesRef s = xs" "tempoRef s = tp"
    "totalDurationRef s = td" "playbackState s = Playing"
    and p: "pending_timeouts s = [] \<longleftrightarrow> length xs \<le> nextNoteIndexRef s"
    using assms by (simp_all add: in_session_def)
  from c f obtain h where h: "pending_frames s = [h]" and ctx: "audioCtxRef s"
    by (auto simp: consistent_def handle_ok_def split: option.splits)
  have ff: "fire_frame t s =
      requestAnimationFrame (s\<lparr>pending_frames := [], currentTime := t - anchor\<rparr>)"
    using tick_running [of "s\<lparr>pending_frames := []\<rparr>" t] assms(2) f ctx h
    by (simp add: fire_frame_def)
  have "consistent (fire_frame t s)"
    using c by (rule consistent_fire_frame)
  then show "in_session anchor td xs tp (fire_frame t s)"
    using f p by (simp add: in_session_def ff requestAnimationFrame_def)
  show "nextNoteIndexRef (fire_frame t s) = nextNoteIndexRef s"
    and "tracked (fire_frame t s) = tracked s"
    and "ctx_oscillators (fire_frame t s) = ctx_oscillators s"
    by (simp_all add: ff requestAnimationFrame_def tracked_def)
qed

lemma session_play:
  assumes "consistent s"
  shows "in_session (now - seekOffsetRef s) (totalDurationRef s) (sortedNotesRef s) (tempoRef s)
           (play now s)"
  using assms play_pending(1) [OF assms, of now] consistent_play [OF assms, of now]
  by (auto simp: in_session_def play_clock)


section \<open>One playback as a whole\<close>

lemma takeWhile_extend:
  assumes "\<forall>e\<in>set (take i xs). Q e"
  shows "take i xs @ takeWhile Q (drop i xs) = takeWhile Q xs"
proof -
  have "takeWhile Q (take i xs @ drop i xs) = take i xs @ takeWhile Q (drop i xs)"
    using assms by (intro takeWhile_append2) simp
  then show ?thesis by simp
qed

lemma take_cursor_due:
  "take (i + length (due_from u i xs)) xs = take i xs @ due_from u i xs"
  by (simp add: take_add due_from_def takeWhile_eq_take [symmetric])

lemma due_from_length: "i \<le> length xs \<Longrightarrow> i + length (due_from u i xs) \<le> length xs"
  using length_takeWhile_le [of "\<lambda>e. start_time e \<le> u" "drop i xs"]
  by (simp add: due_from_def)

lemma scheduled_upto_step:
  assumes "scheduled_upto anchor xs prev s" and "prev \<le> t"
    and "nextNoteIndexRef s' =
           nextNoteIndexRef s + length (due_from (t - anchor + LOOKAHEAD_SECS) (nextNoteIndexRef s) xs)"
  shows "scheduled_upto anchor xs t s'"
proof -
  define i where "i = nextNoteIndexRef s"
  define u where "u = t - anchor + LOOKAHEAD_SECS"
  have i: "i \<le> length xs"
    and tk: "take i xs = takeWhile (\<lambda>e. start_time e \<le> prev - anchor + LOOKAHEAD_SECS) xs"
    using assms(1) by (simp_all add: scheduled_upto_def i_def)
  have "\<forall>e\<in>set (take i xs). start_time e \<le> u"
  proof
    fix e assume "e \<in> set (take i xs)"
    then have "start_time e \<le> prev - anchor + LOOKAHEAD_SECS"
      unfolding tk by (auto dest: set_takeWhileD)
    with assms(2) show "start_time e \<le> u" by (simp add: u_def)
  qed
  then have "take i xs @ due_from u i xs = takeWhile (\<lambda>e. start_time e \<le> u) xs"
    unfolding due_from_def by (rule takeWhile_extend)
  then have "take (i + length (due_from u i xs)) xs = takeWhile (\<lambda>e. start_time e \<le> u) xs"
    by (simp add: take_cursor_due)
  with i assms(3) due_from_length [of i xs u] show ?thesis
    by (simp add: scheduled_upto_def i_def u_def)
qed

lemma voice_ahead:
  assumes "t \<le> now"
  shows "map start_at (filter (\<lambda>v. now < start_at v) (voice anchor t tp e)) =
     (if \<not> endsWith_r (duration e) \<and> now < anchor + start_time e
      then [anchor + start_time e, anchor + start_time e] else [])"
  using assms by (auto simp: voice_def primaryOsc_def brightOsc_def Let_def max_def)

lemma voices_ahead:
  assumes "t \<le> now"
  shows "map start_at (filter (\<lambda>v. now < start_at v) (concat (map (voice anchor t tp) es))) =
     concat (map (\<lambda>e. [anchor + start_time e, anchor + start_time e]) (ahead_of anchor now es))"
proof (induction es)
  case Nil
  then show ?case by (simp add: ahead_of_def)
next
  case (Cons e es)
  then show ?case
    using voice_ahead [OF assms, of anchor tp e] by (simp add: ahead_of_def)
qed

lemma ahead_of_append: "ahead_of anchor now (xs @ ys) = ahead_of anchor now xs @ ahead_of anchor now ys"
  by (simp add: ahead_of_def)

lemma ahead_ok_step:
  assumes "ahead_ok anchor xs prev s" and "prev \<le> t"
    and "nextNoteIndexRef s' =
           nextNoteIndexRef s + length (due_from (t - anchor + LOOKAHEAD_SECS) (nextNoteIndexRef s) xs)"
    and "tracked s' = tracked s @ concat (map (voice anchor t tp)
           (due_from (t - anchor + LOOKAHEAD_SECS) (nextNoteIndexRef s) xs))"
  shows "ahead_ok anchor xs t s'"
  unfolding ahead_ok_def
proof (intro allI impI)
  fix now assume now: "t \<le> now"
  with assms(2) have "prev \<le> now" by simp
  with assms(1) have old: "map start_at (filter (\<lambda>v. now < start_at v) (tracked s)) =
        concat (map (\<lambda>e. [anchor + start_time e, anchor + start_time e])
          (ahead_of anchor now (take (nextNoteIndexRef s) xs)))"
    by (simp add: ahead_ok_def)
  show "map start_at (filter (\<lambda>v. now < start_at v) (tracked s')) =
        concat (map (\<lambda>e. [anchor + start_time e, anchor + start_time e])
          (ahead_of anchor now (take (nextNoteIndexRef s') xs)))"
    unfolding assms(3,4)
    by (simp add: take_cursor_due ahead_of_append old voices_ahead [OF now])
qed

lemma session_run:
  assumes "in_session anchor td xs tp s" and "scheduled_upto anchor xs prev s"
    and "ahead_ok anchor xs prev s" and "uninterrupted anchor td prev es"
  shows "in_session anchor td xs tp (run es s) \<and>
         scheduled_upto anchor xs (last_tick prev es) (run es s) \<and>
         ahead_ok anchor xs (last_tick prev es) (run es s)"
  using assms
proof (induction es arbitrary: s prev)
  case Nil
  then show ?case by simp
next
  case (Cons e es)
  show ?case
  proof (cases e)
    case (Timeout t)
    with Cons.prems have t: "prev \<le> t" and rest: "uninterrupted anchor td t es"
      by simp_all
    note st = session_timeout [OF Cons.prems(1), of t]
    have "scheduled_upto anchor xs t (fire_timeout t s)"
      using Cons.prems(2) t st(2) by (rule scheduled_upto_step)
    moreover have "ahead_ok anchor xs t (fire_timeout t s)"
      using Cons.prems(3) t st(2,3) by (rule ahead_ok_step)
    ultimately show ?thesis
      using Cons.IH [OF st(1) _ _ rest] Timeout by simp
  next
    case (Frame t)
    with Cons.prems have t: "t - anchor < td" and rest: "uninterrupted anchor td prev es"
      by simp_all
    note sf = session_frame [OF Cons.prems(1) t]
    have "scheduled_upto anchor xs prev (fire_frame t s)"
      using Cons.prems(2) sf(2) by (simp add: scheduled_upto_def)
    moreover have "ahead_ok anchor xs prev (fire_frame t s)"
      using Cons.prems(3) sf(2,3) by (simp add: ahead_ok_def)
    ultimately show ?thesis
      using Cons.IH [OF sf(1) _ _ rest] Frame by simp
  qed (use Cons.prems in simp_all)
qed


lemma seek_prefix:
  "take (seekLoop xs p 0) xs = takeWhile (\<lambda>e. start_time e < p - 0.02) xs"
  by (simp add: seekLoop_eq takeWhile_eq_take [symmetric])

lemma play_cursor:
  "scheduled_upto (now - seekOffsetRef s) (sortedNotesRef s) now (play now s)"
proof -
  define xs where "xs = sortedNotesRef s"
  define p where "p = seekOffsetRef s"
  define i where "i = seekLoop xs p 0"
  define u where "u = p + LOOKAHEAD_SECS"
  have i: "i \<le> length xs"
    using length_takeWhile_le [of "\<lambda>e. start_time e < p - 0.02" xs]
    by (simp add: i_def seekLoop_eq)
  have "\<forall>e\<in>set (take i xs). start_time e \<le> u"
  proof
    fix e assume "e \<in> set (take i xs)"
    then have "start_time e < p - 0.02"
      unfolding i_def seek_prefix by (auto dest: set_takeWhileD)
    then show "start_time e \<le> u" by (simp add: u_def LOOKAHEAD_SECS_def)
  qed
  then have "take i xs @ due_from u i xs = takeWhile (\<lambda>e. start_time e \<le> u) xs"
    unfolding due_from_def by (rule takeWhile_extend)
  then have "take (i + length (due_from u i xs)) xs = takeWhile (\<lambda>e. start_time e \<le> u) xs"
    by (simp add: take_cursor_due)
  with i due_from_length [of i xs u] show ?thesis
    by (simp add: scheduled_upto_def play_scheduled play_due_def xs_def p_def i_def u_def)
qed

lemma play_ahead:
  "ahead_ok (now - seekOffsetRef s) (sortedNotesRef s) now (play now s)"
  unfolding ahead_ok_def
proof (intro allI impI)
  fix t assume t: "now \<le> t"
  define xs where "xs = sortedNotesRef s"
  define p where "p = seekOffsetRef s"
  define i where "i = seekLoop xs p 0"
  have "ahead_of (now - p) t (take i xs) = []"
  proof -
    have "\<not> t < now - p + start_time e" if "e \<in> set (take i xs)" for e
    proof -
      from that have "start_time e < p - 0.02"
        unfolding i_def seek_prefix by (auto dest: set_takeWhileD)
      with t show ?thesis by simp
    qed
    then show ?thesis by (simp add: ahead_of_def)
  qed
  then show "map start_at (filter (\<lambda>v. t < start_at v) (tracked (play now s))) =
        concat (map (\<lambda>e. [now - seekOffsetRef s + start_time e, now - seekOffsetRef s + start_time e])
          (ahead_of (now - seekOffsetRef s) t (take (nextNoteIndexRef (play now s)) (sortedNotesRef s))))"
    using voices_ahead [OF t, of "now - p" "tempoRef s" "play_due s"]
    by (simp add: play_tracked play_voices_def play_scheduled play_due_def take_cursor_due
        ahead_of_append xs_def p_def i_def)
qed

lemma static_step:
  "sortedNotesRef (step e s) = sortedNotesRef s"
  "tempoRef (step e s) = tempoRef s"
  "totalDurationRef (step e s) = totalDurationRef s"
  by (cases e; simp add: play_clock pause_def stop_def fire_timeout_def fire_frame_def tick_def
        runScheduler_fields requestAnimationFrame_def cancelRaf_def cancelScheduler_def
        killOscillators_def Let_def split: option.splits list.splits)+

lemma static_run:
  "sortedNotesRef (run es s) = sortedNotesRef s"
  "tempoRef (run es s) = tempoRef s"
  "totalDurationRef (run es s) = totalDurationRef s"
  by (induction es arbitrary: s) (simp_all add: static_step)

lemma sorted_takeWhile_filter:
  "sorted (map f xs) \<Longrightarrow> takeWhile (\<lambda>e. f e \<le> (u::real)) xs = filter (\<lambda>e. f e \<le> u) xs"
proof (induction xs)
  case Nil
  then show ?case by simp
next
  case (Cons x xs)
  show ?case
  proof (cases "f x \<le> u")
    case True
    with Cons show ?thesis by simp
  next
    case False
    with Cons.prems have "\<forall>e\<in>set xs. \<not> f e \<le> u" by auto
    with False show ?thesis by (simp add: filter_False)
  qed
qed

lemma sorted_timeline: "sorted (map start_time (sort_key start_time notes))"
  by (rule sorted_sort_key)


lemma length_filter_mono:
  "(\<And>x. x \<in> set xs \<Longrightarrow> P x \<Longrightarrow> Q x) \<Longrightarrow> length (filter P xs) \<le> length (filter Q xs)"
  by (induction xs) auto

lemma length_pairs: "length (concat (map (\<lambda>e. [f e, f e]) xs)) = 2 * length xs"
  by (induction xs) auto

lemma sparse_windows: "length (window_events pos (sort_key start_time sparse_notes)) \<le> 1"
  by (simp add: window_events_def sparse_notes_def LOOKAHEAD_SECS_def)

section \<open>The look-ahead window\<close>

text \<open>
  C2, as the source has it. In a playback that is not interrupted, started by \<open>play\<close> at
  engine time \<open>t0\<close> from any reachable state, after every run of the scheduler the events
  the cursor has passed are exactly the events of the timeline that start no later than the
  song position of that run plus the look-ahead window. Hence, at every engine time \<open>now\<close>
  since that run, the oscillators held that have not started yet are at most the two of
  each event that starts within the look-ahead window \<open>(pos, pos + 2]\<close> after the song
  position \<open>pos\<close> of \<open>now\<close>, whatever the length of the song. Oscillators that have
  started stay in the set held until the next \<open>pause\<close>, \<open>stop\<close>, \<open>play\<close> or the end of
  the song; the window does not bound them.
\<close>

theorem C2_lookahead_window:
  assumes "s0 = run es0 (useAudioPlayback notes tp td)"
    and "anchor = t0 - seekOffsetRef s0"
    and "uninterrupted anchor td t0 es"
    and "s = run es (play t0 s0)"
    and "last_tick t0 es \<le> now"
  shows "take (nextNoteIndexRef s) (sortedNotesRef s) =
           filter (\<lambda>e. start_time e \<le> last_tick t0 es - anchor + LOOKAHEAD_SECS) (sortedNotesRef s)
     \<and> length (filter (\<lambda>v. now < start_at v) (tracked s)) \<le>
         2 * length (filter (\<lambda>e. now - anchor < start_time e \<and>
                                 start_time e \<le> now - anchor + LOOKAHEAD_SECS) (sortedNotesRef s))"
proof -
  define xs where "xs = sort_key start_time notes"
  define l where "l = last_tick t0 es"
  have st: "sortedNotesRef s0 = xs" "totalDurationRef s0 = td"
    by (simp_all add: assms(1) static_run xs_def useAudioPlayback_def)
  have xs: "sortedNotesRef s = xs"
    by (simp add: assms(4) static_run play_clock st)
  have srt: "sorted (map start_time xs)"
    unfolding xs_def by (rule sorted_timeline)
  have c0: "consistent s0"
    unfolding assms(1) by (rule consistent_reachable)
  have "in_session anchor td xs (tempoRef s0) (play t0 s0)"
    using session_play [OF c0, of t0] by (simp add: assms(2) st)
  moreover have "scheduled_upto anchor xs t0 (play t0 s0)"
    using play_cursor [of t0 s0] by (simp add: assms(2) st)
  moreover have "ahead_ok anchor xs t0 (play t0 s0)"
    using play_ahead [of t0 s0] by (simp add: assms(2) st)
  ultimately have inv: "scheduled_upto anchor xs l s" "ahead_ok anchor xs l s"
    using session_run [OF _ _ _ assms(3), of xs "tempoRef s0" "play t0 s0"]
    by (simp_all add: assms(4) l_def)
  have tk: "take (nextNoteIndexRef s) xs =
        filter (\<lambda>e. start_time e \<le> l - anchor + LOOKAHEAD_SECS) xs"
    using inv(1) sorted_takeWhile_filter [OF srt] by (simp add: scheduled_upto_def)
  have "length (filter (\<lambda>v. now < start_at v) (tracked s)) =
        length (map start_at (filter (\<lambda>v. now < start_at v) (tracked s)))"
    by simp
  also have "\<dots> = 2 * length (ahead_of anchor now (take (nextNoteIndexRef s) xs))"
    using inv(2) assms(5) unfolding ahead_ok_def l_def
    by (simp only: length_pairs)
  also have "ahead_of anchor now (take (nextNoteIndexRef s) xs) =
      filter (\<lambda>e. (\<not> endsWith_r (duration e) \<and> now < anchor + start_time e) \<and>
                   start_time e \<le> l - anchor + LOOKAHEAD_SECS) xs"
    by (simp add: tk ahead_of_def conj_commute)
  also have "length \<dots> \<le>
      length (filter (\<lambda>e. now - anchor < start_time e \<and>
                          start_time e \<le> now - anchor + LOOKAHEAD_SECS) xs)"
    using assms(5) by (intro length_filter_mono) (auto simp: l_def)
  finally have "length (filter (\<lambda>v. now < start_at v) (tracked s)) \<le>
         2 * length (filter (\<lambda>e. now - anchor < start_time e \<and>
                                 start_time e \<le> now - anchor + LOOKAHEAD_SECS) xs)"
    by simp
  with tk show ?thesis
    by (simp add: xs l_def)
qed

theorem C2_lookahead_window_witness:
  "uninterrupted 0 3 0 [Timeout 0.2] \<and> last_tick 0 [Timeout 0.2] \<le> (0.2 :: real)
   \<and> take (nextNoteIndexRef (run [Timeout 0.2] (play 0 sparse_hook)))
         (sortedNotesRef (run [Timeout 0.2] (play 0 sparse_hook))) =
       filter (\<lambda>e. start_time e \<le> 0.2 + LOOKAHEAD_SECS)
         (sortedNotesRef (run [Timeout 0.2] (play 0 sparse_hook)))
   \<and> length (filter (\<lambda>v. 0.2 < start_at v) (tracked (run [Timeout 0.2] (play 0 sparse_hook)))) \<le>
       2 * length (filter (\<lambda>e. 0.2 < start_time e \<and> start_time e \<le> 0.2 + LOOKAHEAD_SECS)
                     (sortedNotesRef (run [Timeout 0.2] (play 0 sparse_hook))))"
  using C2_lookahead_window [where ?s0.0 = sparse_hook and ?es0.0 = "[]" and ?notes = sparse_notes
      and ?tp = 120 and ?td = 3 and ?anchor = 0 and ?t0.0 = 0 and ?es = "[Timeout 0.2]"
      and ?s = "run [Timeout 0.2] (play 0 sparse_hook)" and ?now = "0.2"]
  by (simp add: sparse_hook_def useAudioPlayback_def)

text \<open>
  C2 as stated fails. With two quarter notes 2.1 s apart at 120 beats per minute, no
  window of 2 s holds more than one event (\<open>sparse_windows\<close>). After \<open>play\<close> at 0 s and
  the scheduler tick at 0.2 s the hook holds the four oscillators of both events; three of
  them have not ended (the first note sounds until 0.5 s, the second is scheduled for
  2.1 s), more than the two oscillators of the one event in the window.
\<close>

theorem C2_live_exceeds_window:
  "length (tracked (run [Play 0, Timeout 0.2] sparse_hook)) = 4
   \<and> length (live_at 0.2 (run [Play 0, Timeout 0.2] sparse_hook)) = 3
   \<and> length (window_events (0.2 - contextStartRef (run [Play 0, Timeout 0.2] sparse_hook))
        (sortedNotesRef (run [Play 0, Timeout 0.2] sparse_hook))) = 1
   \<and> \<not> length (live_at 0.2 (run [Play 0, Timeout 0.2] sparse_hook)) \<le>
       2 * length (window_events (0.2 - contextStartRef (run [Play 0, Timeout 0.2] sparse_hook))
        (sortedNotesRef (run [Play 0, Timeout 0.2] sparse_hook)))"
  by (simp add: eval_defs sparse_hook_def sparse_notes_def tracked_def live_at_def
      window_events_def upt_rec primaryOsc_def brightOsc_def durationToSecs_def
      DURATION_BEATS_def)


section \<open>Rests\<close>

lemma voice_rest: "endsWith_r (duration e) \<Longrightarrow> voice anchor now tp e = []"
  by (simp add: voice_def)

lemma voices_skip_rests:
  "concat (map (voice anchor now tp) es) =
   concat (map (voice anchor now tp) (filter (\<lambda>e. \<not> endsWith_r (duration e)) es))"
  by (induction es) (simp_all add: voice_rest)

lemma schedLoop_step:
  assumes "nextNoteIndexRef s < length (sortedNotesRef s)"
    and "start_time (sortedNotesRef s ! nextNoteIndexRef s) \<le> u"
  shows "schedLoop now u s =
     schedLoop now u
       ((scheduleNote now (sortedNotesRef s ! nextNoteIndexRef s) s)
          \<lparr>nextNoteIndexRef := nextNoteIndexRef s + 1\<rparr>)"
  using assms by (subst schedLoop.simps) (simp add: Let_def scheduleNote_eq)

text \<open>
  C7. A rest creates no oscillator: \<open>scheduleNote\<close> returns the state unchanged. The
  loop passes a due rest exactly as it passes any due event, by moving the cursor one
  further: one run of the loop moves the cursor by the number of due events, rests
  included, and the oscillators it creates and holds are those of the due events that are
  not rests.
\<close>

theorem C7_rest_advances_cursor:
  "(endsWith_r (duration e) \<longrightarrow> scheduleNote now e s = s)
   \<and> (nextNoteIndexRef s < length (sortedNotesRef s) \<and>
      start_time (sortedNotesRef s ! nextNoteIndexRef s) \<le> u \<and>
      endsWith_r (duration (sortedNotesRef s ! nextNoteIndexRef s)) \<longrightarrow>
        schedLoop now u s = schedLoop now u (s\<lparr>nextNoteIndexRef := nextNoteIndexRef s + 1\<rparr>))
   \<and> nextNoteIndexRef (schedLoop now u s) =
       nextNoteIndexRef s + length (due_from u (nextNoteIndexRef s) (sortedNotesRef s))
   \<and> ctx_oscillators (schedLoop now u s) =
       ctx_oscillators s @
         concat (map (voice (contextStartRef s) now (tempoRef s))
           (filter (\<lambda>e. \<not> endsWith_r (duration e))
              (due_from u (nextNoteIndexRef s) (sortedNotesRef s))))
   \<and> length (oscsRef (schedLoop now u s)) =
       length (oscsRef s) +
         length (concat (map (voice (contextStartRef s) now (tempoRef s))
           (filter (\<lambda>e. \<not> endsWith_r (duration e))
              (due_from u (nextNoteIndexRef s) (sortedNotesRef s)))))"
proof -
  have a: "scheduleNote now e s = s" if "endsWith_r (duration e)"
    using that by (simp add: scheduleNote_def)
  have b: "schedLoop now u s = schedLoop now u (s\<lparr>nextNoteIndexRef := nextNoteIndexRef s + 1\<rparr>)"
    if "nextNoteIndexRef s < length (sortedNotesRef s)"
      and "start_time (sortedNotesRef s ! nextNoteIndexRef s) \<le> u"
      and "endsWith_r (duration (sortedNotesRef s ! nextNoteIndexRef s))"
    using schedLoop_step [OF that(1,2), of now] that(3) by (simp add: scheduleNote_def)
  have c: "nextNoteIndexRef (schedLoop now u s) =
       nextNoteIndexRef s + length (due_from u (nextNoteIndexRef s) (sortedNotesRef s))"
    by (simp add: schedLoop_eq Let_def)
  have d: "ctx_oscillators (schedLoop now u s) =
       ctx_oscillators s @
         concat (map (voice (contextStartRef s) now (tempoRef s))
           (filter (\<lambda>e. \<not> endsWith_r (duration e))
              (due_from u (nextNoteIndexRef s) (sortedNotesRef s))))"
    using voices_skip_rests [of "contextStartRef s" now "tempoRef s"
        "due_from u (nextNoteIndexRef s) (sortedNotesRef s)"]
    by (simp add: schedLoop_eq Let_def)
  have e: "length (oscsRef (schedLoop now u s)) =
       length (oscsRef s) +
         length (concat (map (voice (contextStartRef s) now (tempoRef s))
           (filter (\<lambda>e. \<not> endsWith_r (duration e))
              (due_from u (nextNoteIndexRef s) (sortedNotesRef s)))))"
    using voices_skip_rests [of "contextStartRef s" now "tempoRef s"
        "due_from u (nextNoteIndexRef s) (sortedNotesRef s)"]
    by (simp add: schedLoop_eq Let_def)
  from a b c d e show ?thesis by blast
qed

theorem C7_rest_advances_cursor_witness:
  "endsWith_r (duration (example_notes ! 1))
   \<and> scheduleNote 0 (example_notes ! 1) example_hook = example_hook
   \<and> schedLoop 0 2 (example_hook\<lparr>nextNoteIndexRef := 1\<rparr>) =
       schedLoop 0 2 (example_hook\<lparr>nextNoteIndexRef := 1 + 1\<rparr>)
   \<and> nextNoteIndexRef (schedLoop 0 2 example_hook) = 3
   \<and> length (ctx_oscillators (schedLoop 0 2 example_hook)) = 4"
proof -
  define s1 where "s1 = example_hook\<lparr>nextNoteIndexRef := 1\<rparr>"
  note T0 = C7_rest_advances_cursor [of "example_notes ! 1" 0 example_hook 2]
  note T1 = C7_rest_advances_cursor [of "example_notes ! 1" 0 s1 2]
  have r: "endsWith_r (duration (example_notes ! 1))"
    by (simp add: example_notes_def endsWith_r_def)
  have due: "due_from 2 (nextNoteIndexRef example_hook) (sortedNotesRef example_hook) = example_notes"
    by (simp add: due_from_def example_notes_def example_hook_def useAudioPlayback_def)
  have n: "length (concat (map (voice (contextStartRef example_hook) 0 (tempoRef example_hook))
      (filter (\<lambda>e. \<not> endsWith_r (duration e)) example_notes))) = 4"
    by (simp add: example_notes_def endsWith_r_def voice_def Let_def example_hook_def
        useAudioPlayback_def)
  have f: "nextNoteIndexRef example_hook = 0" "ctx_oscillators example_hook = []"
    by (simp_all add: example_hook_def useAudioPlayback_def)
  have c1: "nextNoteIndexRef s1 < length (sortedNotesRef s1)"
    "start_time (sortedNotesRef s1 ! nextNoteIndexRef s1) \<le> 2"
    "endsWith_r (duration (sortedNotesRef s1 ! nextNoteIndexRef s1))"
    by (simp_all add: s1_def example_hook_def useAudioPlayback_def example_notes_def endsWith_r_def)
  have w1: "scheduleNote 0 (example_notes ! 1) example_hook = example_hook"
    using T0 r by blast
  have w2: "schedLoop 0 2 s1 = schedLoop 0 2 (s1\<lparr>nextNoteIndexRef := nextNoteIndexRef s1 + 1\<rparr>)"
    using T1 c1 by blast
  have w3: "nextNoteIndexRef (schedLoop 0 2 example_hook) = 3"
    unfolding T0 [THEN conjunct2, THEN conjunct2, THEN conjunct1] due
    by (simp add: f example_notes_def)
  have w4: "length (ctx_oscillators (schedLoop 0 2 example_hook)) = 4"
    unfolding T0 [THEN conjunct2, THEN conjunct2, THEN conjunct2, THEN conjunct1] due
    using n by (simp add: f)
  from r w1 w2 w3 w4 show ?thesis
    by (simp add: s1_def)
qed


section \<open>A complete playback\<close>

lemma voice_on_time:
  "now \<le> anchor + start_time e \<Longrightarrow>
   voice anchor now tp e = (if endsWith_r (duration e) then [] else toneVoice anchor tp e)"
  by (simp add: voice_def toneVoice_def Let_def max_def)

lemma voices_on_time:
  "\<forall>e\<in>set es. now \<le> anchor + start_time e \<Longrightarrow>
   concat (map (voice anchor now tp) es) =
   concat (map (toneVoice anchor tp) (filter (\<lambda>e. \<not> endsWith_r (duration e)) es))"
  by (induction es) (simp_all add: voice_on_time)

lemma sorted_dropWhile_beyond:
  "sorted (map f xs) \<Longrightarrow> \<forall>e\<in>set (dropWhile (\<lambda>e. f e \<le> (u::real)) xs). u < f e"
proof (induction xs)
  case Nil
  then show ?case by simp
next
  case (Cons x xs)
  then show ?case by (cases "f x \<le> u") auto
qed

lemma sorted_beyond_cursor:
  assumes "sorted (map f xs)" and "take i xs = takeWhile (\<lambda>e. f e \<le> (u::real)) xs"
  shows "\<forall>e\<in>set (drop i xs). u < f e"
proof -
  have "take i xs @ drop i xs = takeWhile (\<lambda>e. f e \<le> u) xs @ dropWhile (\<lambda>e. f e \<le> u) xs"
    by simp
  then have "drop i xs = dropWhile (\<lambda>e. f e \<le> u) xs"
    unfolding assms(2) by (simp only: same_append_eq)
  then show ?thesis
    using sorted_dropWhile_beyond [OF assms(1), of u] by simp
qed

lemma due_from_subset: "set (due_from u i xs) \<subseteq> set (drop i xs)"
  by (auto simp: due_from_def dest: set_takeWhileD)

lemma on_time_step:
  assumes "on_time anchor tp xs s" and "scheduled_upto anchor xs prev s"
    and "sorted (map start_time xs)" and "t \<le> prev + LOOKAHEAD_SECS"
    and "nextNoteIndexRef s' =
           nextNoteIndexRef s + length (due_from (t - anchor + LOOKAHEAD_SECS) (nextNoteIndexRef s) xs)"
    and "tracked s' = tracked s @ concat (map (voice anchor t tp)
           (due_from (t - anchor + LOOKAHEAD_SECS) (nextNoteIndexRef s) xs))"
    and "ctx_oscillators s' = ctx_oscillators s @ concat (map (voice anchor t tp)
           (due_from (t - anchor + LOOKAHEAD_SECS) (nextNoteIndexRef s) xs))"
  shows "on_time anchor tp xs s'"
proof -
  define due where "due = due_from (t - anchor + LOOKAHEAD_SECS) (nextNoteIndexRef s) xs"
  have "\<forall>e\<in>set (drop (nextNoteIndexRef s) xs). prev - anchor + LOOKAHEAD_SECS < start_time e"
    using assms(2,3) by (intro sorted_beyond_cursor) (simp_all add: scheduled_upto_def)
  then have "\<forall>e\<in>set due. t \<le> anchor + start_time e"
    using due_from_subset [of "t - anchor + LOOKAHEAD_SECS" "nextNoteIndexRef s" xs] assms(4)
    by (fastforce simp: due_def)
  then have v: "concat (map (voice anchor t tp) due) =
      concat (map (toneVoice anchor tp) (filter (\<lambda>e. \<not> endsWith_r (duration e)) due))"
    by (rule voices_on_time)
  show ?thesis
    using assms(1) unfolding on_time_def assms(5,6,7) due_def [symmetric] v
    by (simp add: take_cursor_due due_def)
qed

lemma on_time_run:
  assumes "in_session anchor td xs tp s" and "scheduled_upto anchor xs prev s"
    and "on_time anchor tp xs s" and "sorted (map start_time xs)"
    and "uninterrupted anchor td prev es" and "timely prev es"
  shows "in_session anchor td xs tp (run es s) \<and>
         scheduled_upto anchor xs (last_tick prev es) (run es s) \<and>
         on_time anchor tp xs (run es s)"
  using assms
proof (induction es arbitrary: s prev)
  case Nil
  then show ?case by simp
next
  case (Cons e es)
  show ?case
  proof (cases e)
    case (Timeout t)
    with Cons.prems have t: "prev \<le> t" "t \<le> prev + LOOKAHEAD_SECS"
      and rest: "uninterrupted anchor td t es" "timely t es"
      by simp_all
    note st = session_timeout [OF Cons.prems(1), of t]
    have "scheduled_upto anchor xs t (fire_timeout t s)"
      using Cons.prems(2) t(1) st(2) by (rule scheduled_upto_step)
    moreover have "on_time anchor tp xs (fire_timeout t s)"
      using Cons.prems(3,2,4) t(2) st(2,3,4) by (rule on_time_step)
    ultimately show ?thesis
      using Cons.IH [OF st(1) _ _ Cons.prems(4) rest] Timeout by simp
  next
    case (Frame t)
    with Cons.prems have t: "t - anchor < td"
      and rest: "uninterrupted anchor td prev es" "timely prev es"
      by simp_all
    note sf = session_frame [OF Cons.prems(1) t]
    have "scheduled_upto anchor xs prev (fire_frame t s)"
      using Cons.prems(2) sf(2) by (simp add: scheduled_upto_def)
    moreover have "on_time anchor tp xs (fire_frame t s)"
      using Cons.prems(3) sf(2,3,4) by (simp add: on_time_def)
    ultimately show ?thesis
      using Cons.IH [OF sf(1) _ _ Cons.prems(4) rest] Frame by simp
  qed (use Cons.prems in simp_all)
qed


lemma takeWhile_none: "\<forall>e\<in>set xs. \<not> P e \<Longrightarrow> takeWhile P xs = []"
  by (cases xs) auto

lemma play_on_time:
  assumes "\<forall>e\<in>set notes. 0 \<le> start_time e"
  shows "on_time t0 tp (sort_key start_time notes) (play t0 (useAudioPlayback notes tp td))"
proof -
  define xs where "xs = sort_key start_time notes"
  define s0 where "s0 = useAudioPlayback notes tp td"
  have f: "sortedNotesRef s0 = xs" "seekOffsetRef s0 = 0" "tempoRef s0 = tp"
    "ctx_oscillators s0 = []" "oscsRef s0 = []"
    by (simp_all add: s0_def xs_def useAudioPlayback_def)
  have "\<forall>e\<in>set xs. \<not> start_time e < 0 - 0.02"
    using assms by (fastforce simp: xs_def)
  then have i: "seekLoop xs 0 0 = 0"
    by (simp add: seekLoop_eq takeWhile_none)
  have due: "play_due s0 = due_from LOOKAHEAD_SECS 0 xs"
    by (simp add: play_due_def f i)
  have "set (due_from LOOKAHEAD_SECS 0 xs) \<subseteq> set notes"
    using due_from_subset [of LOOKAHEAD_SECS 0 xs] by (simp add: xs_def)
  with assms have "\<forall>e\<in>set (due_from LOOKAHEAD_SECS 0 xs). t0 \<le> t0 + start_time e"
    by auto
  then have v: "play_voices t0 s0 =
      concat (map (toneVoice t0 tp)
        (filter (\<lambda>e. \<not> endsWith_r (duration e)) (due_from LOOKAHEAD_SECS 0 xs)))"
    unfolding play_voices_def due f by (simp add: voices_on_time)
  have c: "nextNoteIndexRef (play t0 s0) = length (due_from LOOKAHEAD_SECS 0 xs)"
    by (simp add: play_scheduled f i due)
  have tk: "take (length (due_from LOOKAHEAD_SECS 0 xs)) xs = due_from LOOKAHEAD_SECS 0 xs"
    using take_cursor_due [of 0 LOOKAHEAD_SECS xs] by simp
  show ?thesis
    unfolding on_time_def xs_def [symmetric] s0_def [symmetric]
    by (simp add: play_tracked play_scheduled(2) f v c tk)
qed

lemma runScheduler_oscs:
  "oscsRef (runScheduler now s) =
     oscsRef s @
       [length (ctx_oscillators s) ..<
        length (ctx_oscillators s) +
          length (concat (map (voice (contextStartRef s) now (tempoRef s))
            (due_from (now - contextStartRef s + LOOKAHEAD_SECS) (nextNoteIndexRef s)
               (sortedNotesRef s))))]"
  by (simp add: runScheduler_eq Let_def setTimeout_def)

lemma all_held_timeout:
  assumes "in_session anchor td xs tp s" and "all_held s"
  shows "all_held (fire_timeout t s)"
proof -
  have c: "consistent s"
    using assms(1) by (simp add: in_session_def)
  show ?thesis
  proof (cases "pending_timeouts s = []")
    case True
    with assms(2) show ?thesis
      by (simp add: fire_timeout_eq [OF c])
  next
    case False
    have "[0 ..< n] @ [n ..< n + k] = [0 ..< n + k]" for n k :: nat
      using upt_add_eq_append [of 0 n k] by simp
    with False assms(2) show ?thesis
      by (simp add: fire_timeout_eq [OF c] all_held_def runScheduler_oscs runScheduler_fields)
  qed
qed

lemma all_held_frame:
  assumes "in_session anchor td xs tp s" and "t - anchor < td" and "all_held s"
  shows "all_held (fire_frame t s)"
proof -
  have c: "consistent s" and f: "contextStartRef s = anchor" "totalDurationRef s = td"
    "playbackState s = Playing"
    using assms(1) by (simp_all add: in_session_def)
  from c f obtain h where h: "pending_frames s = [h]" and ctx: "audioCtxRef s"
    by (auto simp: consistent_def handle_ok_def split: option.splits)
  have "fire_frame t s =
      requestAnimationFrame (s\<lparr>pending_frames := [], currentTime := t - anchor\<rparr>)"
    using tick_running [of "s\<lparr>pending_frames := []\<rparr>" t] assms(2) f ctx h
    by (simp add: fire_frame_def)
  with assms(3) show ?thesis
    by (simp add: all_held_def requestAnimationFrame_def)
qed

lemma all_held_run:
  assumes "in_session anchor td xs tp s" and "all_held s" and "uninterrupted anchor td prev es"
  shows "all_held (run es s)"
  using assms
proof (induction es arbitrary: s prev)
  case Nil
  then show ?case by simp
next
  case (Cons e es)
  show ?case
  proof (cases e)
    case (Timeout t)
    with Cons.prems have rest: "uninterrupted anchor td t es"
      by simp
    have "all_held (fire_timeout t s)"
      using Cons.prems(1,2) by (rule all_held_timeout)
    with Cons.IH [OF session_timeout(1) [OF Cons.prems(1)] _ rest] Timeout show ?thesis
      by simp
  next
    case (Frame t)
    with Cons.prems have t: "t - anchor < td" and rest: "uninterrupted anchor td prev es"
      by simp_all
    have "all_held (fire_frame t s)"
      using Cons.prems(1) t Cons.prems(2) by (rule all_held_frame)
    with Cons.IH [OF session_frame(1) [OF Cons.prems(1) t] _ rest] Frame show ?thesis
      by simp
  qed (use Cons.prems in simp_all)
qed

lemma map_start_at_stop_osc: "map start_at (stop_osc ns i) = map start_at ns"
  by (simp add: stop_osc_def map_update list_update_same_conv)

lemma map_start_at_foldl_stop_osc: "map start_at (foldl stop_osc ns is) = map start_at ns"
  by (induction "is" arbitrary: ns) (simp_all add: map_start_at_stop_osc)

lemma song_end_stops_all:
  assumes "in_session anchor td xs tp s" and "all_held s" and "td \<le> t - anchor"
  shows "playbackState (fire_frame t s) = Idle"
    and "map start_at (ctx_oscillators (fire_frame t s)) = map start_at (ctx_oscillators s)"
    and "list_all (\<lambda>v. stop_at v = 0) (ctx_oscillators (fire_frame t s))"
proof -
  have c: "consistent s" and f: "contextStartRef s = anchor" "totalDurationRef s = td"
    "playbackState s = Playing"
    using assms(1) by (simp_all add: in_session_def)
  from c f obtain h where h: "pending_frames s = [h]" and ctx: "audioCtxRef s"
    by (auto simp: consistent_def handle_ok_def split: option.splits)
  define s0 where "s0 = s\<lparr>pending_frames := []\<rparr>"
  have ff: "fire_frame t s =
     (cancelRaf (killOscillators (cancelScheduler (s0\<lparr>currentTime := totalDurationRef s\<rparr>))))
       \<lparr>seekOffsetRef := 0, playbackState := Idle, currentTime := 0\<rparr>"
    using tick_end [of s0 t] assms(3) f ctx h by (simp add: fire_frame_def s0_def)
  have cx: "ctx_oscillators (fire_frame t s) =
      foldl stop_osc (ctx_oscillators s) [0 ..< length (ctx_oscillators s)]"
    using assms(2) unfolding ff by (simp add: s0_def all_held_def)
  show "playbackState (fire_frame t s) = Idle"
    unfolding ff by simp
  show "map start_at (ctx_oscillators (fire_frame t s)) = map start_at (ctx_oscillators s)"
    unfolding cx by (rule map_start_at_foldl_stop_osc)
  show "list_all (\<lambda>v. stop_at v = 0) (ctx_oscillators (fire_frame t s))"
    unfolding cx by (simp add: list_all_length foldl_stop_osc_stopped)
qed

lemma play_all_held: "all_held (play t0 (useAudioPlayback notes tp td))"
  by (simp add: all_held_def play_scheduled useAudioPlayback_def)

text \<open>
  C1, as the source has it. Take any timeline with start times that are not negative,
  played from position 0 on a fresh hook at engine time \<open>t0\<close>, not interrupted, with no
  scheduler tick later than one look-ahead window after the run of the scheduler before
  it, until the scheduler has seen the whole timeline. Then the oscillators created, all of
  them held by the hook, are exactly one voice (the fundamental and its overtone) for each
  event that is not a rest, in timeline order; the cursor has passed every index and no
  tick is pending. Each voice starts exactly at \<open>t0\<close> plus the start time of its event,
  and its fundamental is set to stop \<open>durationToSecs\<close> of the event's duration later, at
  the frequency of the event's pitch. The frame callback that finds the song position at
  or past the total duration then ends the playback: the hook goes idle and every
  oscillator, with its start unchanged, is told to stop at once, so that a voice that has
  not finished by then is cut.
\<close>

theorem C1_uninterrupted_playback:
  assumes "\<forall>e\<in>set notes. 0 \<le> start_time e"
    and "uninterrupted t0 td t0 es" and "timely t0 es"
    and "\<forall>e\<in>set notes. start_time e \<le> last_tick t0 es - t0 + LOOKAHEAD_SECS"
    and "s = run es (play t0 (useAudioPlayback notes tp td))"
  shows "ctx_oscillators s =
           concat (map (toneVoice t0 tp)
             (filter (\<lambda>e. \<not> endsWith_r (duration e)) (sort_key start_time notes)))
     \<and> tracked s = ctx_oscillators s
     \<and> nextNoteIndexRef s = length notes
     \<and> pending_timeouts s = []
     \<and> playbackState s = Playing
     \<and> length (toneVoice t0 tp e) = 2
     \<and> start_at (toneVoice t0 tp e ! 0) = t0 + start_time e
     \<and> stop_at (toneVoice t0 tp e ! 0) = t0 + start_time e + durationToSecs (duration e) tp
     \<and> frequency (toneVoice t0 tp e ! 0) = noteToFreq (pitch e) (octave e)
     \<and> (td \<le> t - t0 \<longrightarrow>
          playbackState (fire_frame t s) = Idle \<and>
          map start_at (ctx_oscillators (fire_frame t s)) = map start_at (ctx_oscillators s) \<and>
          list_all (\<lambda>v. stop_at v = 0) (ctx_oscillators (fire_frame t s)))"
proof -
  define xs where "xs = sort_key start_time notes"
  define s0 where "s0 = useAudioPlayback notes tp td"
  define l where "l = last_tick t0 es"
  have f: "sortedNotesRef s0 = xs" "seekOffsetRef s0 = 0" "tempoRef s0 = tp"
    "totalDurationRef s0 = td"
    by (simp_all add: s0_def xs_def useAudioPlayback_def)
  have c0: "consistent s0"
    unfolding s0_def by (rule consistent_init)
  have srt: "sorted (map start_time xs)"
    unfolding xs_def by (rule sorted_timeline)
  have ses: "in_session t0 td xs tp (play t0 s0)"
    using session_play [OF c0, of t0] by (simp add: f)
  moreover have "scheduled_upto t0 xs t0 (play t0 s0)"
    using play_cursor [of t0 s0] by (simp add: f)
  moreover have "on_time t0 tp xs (play t0 s0)"
    unfolding xs_def s0_def using assms(1) by (rule play_on_time)
  ultimately have inv: "in_session t0 td xs tp s" "scheduled_upto t0 xs l s" "on_time t0 tp xs s"
    using on_time_run [OF _ _ _ srt assms(2,3), where ?tp = tp and ?s = "play t0 s0"]
    by (simp_all add: assms(5) l_def s0_def)
  have held: "all_held s"
    unfolding assms(5) s0_def [symmetric]
    using ses play_all_held [of t0 "notes" tp td] assms(2)
    by (intro all_held_run) (simp_all add: s0_def)
  have "\<forall>e\<in>set xs. start_time e \<le> l - t0 + LOOKAHEAD_SECS"
    using assms(4) by (simp add: xs_def l_def)
  then have "takeWhile (\<lambda>e. start_time e \<le> l - t0 + LOOKAHEAD_SECS) xs = xs"
    by (simp add: takeWhile_eq_all_conv)
  with inv(2) have tk: "take (nextNoteIndexRef s) xs = xs" and le: "nextNoteIndexRef s \<le> length xs"
    by (simp_all add: scheduled_upto_def)
  from tk have "length (take (nextNoteIndexRef s) xs) = length xs"
    by simp
  with le have n: "nextNoteIndexRef s = length xs"
    by simp
  have a: "ctx_oscillators s =
           concat (map (toneVoice t0 tp) (filter (\<lambda>e. \<not> endsWith_r (duration e)) xs))"
    and b: "tracked s = ctx_oscillators s"
    using inv(3) by (simp_all add: on_time_def tk)
  have p: "pending_timeouts s = []" "playbackState s = Playing"
    using inv(1) n by (simp_all add: in_session_def)
  have v: "length (toneVoice t0 tp e) = 2"
    "start_at (toneVoice t0 tp e ! 0) = t0 + start_time e"
    "stop_at (toneVoice t0 tp e ! 0) = t0 + start_time e + durationToSecs (duration e) tp"
    "frequency (toneVoice t0 tp e ! 0) = noteToFreq (pitch e) (octave e)"
    by (simp_all add: toneVoice_def primaryOsc_def Let_def)
  have z: "playbackState (fire_frame t s) = Idle \<and>
          map start_at (ctx_oscillators (fire_frame t s)) = map start_at (ctx_oscillators s) \<and>
          list_all (\<lambda>v. stop_at v = 0) (ctx_oscillators (fire_frame t s))"
    if "td \<le> t - t0"
    using song_end_stops_all [OF inv(1) held that] by simp
  from a b n p v z show ?thesis
    by (simp add: xs_def)
qed

theorem C1_uninterrupted_playback_witness:
  "list_all (\<lambda>e. 0 \<le> start_time e) sparse_notes
   \<and> uninterrupted 0 3 0 [Frame 0.016, Timeout 0.2] \<and> timely 0 [Frame 0.016, Timeout 0.2]
   \<and> list_all (\<lambda>e. start_time e \<le> last_tick 0 [Frame 0.016, Timeout 0.2] - 0 + LOOKAHEAD_SECS)
        sparse_notes
   \<and> ctx_oscillators (run [Frame 0.016, Timeout 0.2] (play 0 sparse_hook)) =
       concat (map (toneVoice 0 120) sparse_notes)
   \<and> nextNoteIndexRef (run [Frame 0.016, Timeout 0.2] (play 0 sparse_hook)) = 2
   \<and> pending_timeouts (run [Frame 0.016, Timeout 0.2] (play 0 sparse_hook)) = []
   \<and> start_at (toneVoice 0 120 (sparse_notes ! 1) ! 0) = 2.1
   \<and> stop_at (toneVoice 0 120 (sparse_notes ! 1) ! 0) = 2.6
   \<and> playbackState (fire_frame 3 (run [Frame 0.016, Timeout 0.2] (play 0 sparse_hook))) = Idle
   \<and> list_all (\<lambda>v. stop_at v = 0)
        (ctx_oscillators (fire_frame 3 (run [Frame 0.016, Timeout 0.2] (play 0 sparse_hook))))"
proof -
  have h: "\<forall>e\<in>set sparse_notes. 0 \<le> start_time e"
    "uninterrupted 0 3 0 [Frame 0.016, Timeout 0.2]" "timely 0 [Frame 0.016, Timeout 0.2]"
    "\<forall>e\<in>set sparse_notes.
        start_time e \<le> last_tick 0 [Frame 0.016, Timeout 0.2] - 0 + LOOKAHEAD_SECS"
    by (simp_all add: sparse_notes_def LOOKAHEAD_SECS_def)
  have srt: "filter (\<lambda>e. \<not> endsWith_r (duration e)) (sort_key start_time sparse_notes) = sparse_notes"
    by (simp add: sparse_notes_def endsWith_r_def)
  have d: "durationToSecs (duration (sparse_notes ! 1)) 120 = 0.5"
    "start_time (sparse_notes ! 1) = 2.1" "length sparse_notes = 2"
    by (simp_all add: sparse_notes_def durationToSecs_def DURATION_BEATS_def)
  show ?thesis
    using C1_uninterrupted_playback [OF h, where ?s = "run [Frame 0.016, Timeout 0.2] (play 0 sparse_hook)"
        and ?tp = 120 and ?e = "sparse_notes ! 1" and ?t = 3] h srt d
    by (simp add: sparse_hook_def list_all_iff)
qed

text \<open>
  C1 as stated fails in two ways. With three quarter notes 2.5 s apart, \<open>play\<close> at 0 s
  and scheduler ticks at 0.25 s and, late, at 3.2 s, the playback is not interrupted and
  the cursor passes all three events, but the note at 2.5 s lies more than 20 ms in the
  past when the late tick reaches it: no oscillator is created for it. And with the two
  notes of \<open>sparse_notes\<close> and a total duration of 1 s, the frame callback at 1 s ends the
  playback and stops every oscillator: the note scheduled for 2.1 s never sounds.
\<close>

theorem C1_late_tick_drops_note:
  "uninterrupted 0 10 0 [Timeout 0.25, Timeout 3.2]
   \<and> nextNoteIndexRef (run [Timeout 0.25, Timeout 3.2] (play 0 spaced_hook)) = 3
   \<and> pending_timeouts (run [Timeout 0.25, Timeout 3.2] (play 0 spaced_hook)) = []
   \<and> map start_at (ctx_oscillators (run [Timeout 0.25, Timeout 3.2] (play 0 spaced_hook))) =
       [0, 0, 5, 5]
   \<and> playbackState (run [Timeout 0.2, Frame 1] (play 0 (useAudioPlayback sparse_notes 120 1))) = Idle
   \<and> map start_at (ctx_oscillators
         (run [Timeout 0.2, Frame 1] (play 0 (useAudioPlayback sparse_notes 120 1)))) =
       [0, 0, 2.1, 2.1]
   \<and> map stop_at (ctx_oscillators
         (run [Timeout 0.2, Frame 1] (play 0 (useAudioPlayback sparse_notes 120 1)))) =
       [0, 0, 0, 0]"
  by (simp add: eval_defs spaced_hook_def spaced_notes_def sparse_notes_def upt_rec
      primaryOsc_def brightOsc_def)

section \<open>Starting and resuming at a position\<close>

lemma sorted_dropWhile_filter:
  "sorted (map f xs) \<Longrightarrow> dropWhile (\<lambda>e. f e < (a::real)) xs = filter (\<lambda>e. a \<le> f e) xs"
proof (induction xs)
  case Nil
  then show ?case by simp
next
  case (Cons x xs)
  show ?case
  proof (cases "f x < a")
    case True
    with Cons show ?thesis by simp
  next
    case False
    with Cons.prems have "\<forall>e\<in>set xs. a \<le> f e" by auto
    with False show ?thesis by simp
  qed
qed

lemma seek_suffix:
  "sorted (map start_time xs) \<Longrightarrow>
   drop (seekLoop xs p 0) xs = filter (\<lambda>e. p - 0.02 \<le> start_time e) xs"
  using sorted_dropWhile_filter [of start_time xs "p - 0.02"]
  by (simp add: seekLoop_eq dropWhile_eq_drop)

lemma sorted_filter_key: "sorted (map f xs) \<Longrightarrow> sorted (map f (filter P xs))"
  by (induction xs) auto

lemma play_due_window:
  assumes "sorted (map start_time (sortedNotesRef s))"
  shows "play_due s =
     filter (\<lambda>e. seekOffsetRef s - 0.02 \<le> start_time e \<and>
                 start_time e \<le> seekOffsetRef s + LOOKAHEAD_SECS) (sortedNotesRef s)"
proof -
  define xs where "xs = sortedNotesRef s"
  define p where "p = seekOffsetRef s"
  have "play_due s = takeWhile (\<lambda>e. start_time e \<le> p + LOOKAHEAD_SECS)
      (filter (\<lambda>e. p - 0.02 \<le> start_time e) xs)"
    using seek_suffix [of xs p] assms by (simp add: play_due_def due_from_def xs_def p_def)
  also have "\<dots> = filter (\<lambda>e. start_time e \<le> p + LOOKAHEAD_SECS)
      (filter (\<lambda>e. p - 0.02 \<le> start_time e) xs)"
    using assms by (intro sorted_takeWhile_filter sorted_filter_key) (simp add: xs_def)
  finally show ?thesis
    by (simp add: xs_def p_def conj_commute)
qed

lemma resumed_from_step:
  assumes "resumed_from idx anchor tp xs s"
    and "nextNoteIndexRef s' =
           nextNoteIndexRef s + length (due_from u (nextNoteIndexRef s) xs)"
    and "tracked s' = tracked s @ concat (map (voice anchor t tp)
           (due_from u (nextNoteIndexRef s) xs))"
  shows "resumed_from idx anchor tp xs s'"
proof -
  have i: "idx \<le> nextNoteIndexRef s"
    using assms(1) by (simp add: resumed_from_def)
  have "set (due_from u (nextNoteIndexRef s) xs) \<subseteq> set (drop idx xs)"
    using due_from_subset [of u "nextNoteIndexRef s" xs] set_drop_subset_set_drop [OF i, of xs]
    by blast
  then have "\<exists>e\<in>set (drop idx xs). \<exists>t. v \<in> set (voice anchor t tp e)"
    if "v \<in> set (concat (map (voice anchor t tp) (due_from u (nextNoteIndexRef s) xs)))" for v
    using that by auto
  with assms(1) i show ?thesis
    unfolding resumed_from_def assms(2,3) by auto
qed

lemma resumed_from_run:
  assumes "in_session anchor td xs tp s" and "resumed_from idx anchor tp xs s"
    and "uninterrupted anchor td prev es"
  shows "in_session anchor td xs tp (run es s) \<and> resumed_from idx anchor tp xs (run es s)"
  using assms
proof (induction es arbitrary: s prev)
  case Nil
  then show ?case by simp
next
  case (Cons e es)
  show ?case
  proof (cases e)
    case (Timeout t)
    with Cons.prems have rest: "uninterrupted anchor td t es"
      by simp
    note st = session_timeout [OF Cons.prems(1), of t]
    have "resumed_from idx anchor tp xs (fire_timeout t s)"
      using Cons.prems(2) st(2,3) by (rule resumed_from_step)
    then show ?thesis
      using Cons.IH [OF st(1) _ rest] Timeout by simp
  next
    case (Frame t)
    with Cons.prems have t: "t - anchor < td" and rest: "uninterrupted anchor td prev es"
      by simp_all
    note sf = session_frame [OF Cons.prems(1) t]
    have "resumed_from idx anchor tp xs (fire_frame t s)"
      using Cons.prems(2) sf(2,3) by (simp add: resumed_from_def)
    then show ?thesis
      using Cons.IH [OF sf(1) _ rest] Frame by simp
  qed (use Cons.prems in simp_all)
qed

lemma play_resumed_from:
  "resumed_from (seekLoop (sortedNotesRef s) (seekOffsetRef s) 0) (now - seekOffsetRef s)
     (tempoRef s) (sortedNotesRef s) (play now s)"
proof -
  have "set (play_due s) \<subseteq> set (drop (seekLoop (sortedNotesRef s) (seekOffsetRef s) 0) (sortedNotesRef s))"
    unfolding play_due_def by (rule due_from_subset)
  then show ?thesis
    by (auto simp: resumed_from_def play_scheduled play_tracked play_voices_def)
qed

lemma takeWhile_split:
  assumes "\<And>x. P x \<Longrightarrow> Q x"
  shows "takeWhile Q ys = takeWhile P ys @ takeWhile Q (drop (length (takeWhile P ys)) ys)"
proof -
  have "takeWhile Q ys = takeWhile Q (takeWhile P ys @ dropWhile P ys)"
    by simp
  also have "\<dots> = takeWhile P ys @ takeWhile Q (dropWhile P ys)"
    using assms by (intro takeWhile_append2) (auto dest: set_takeWhileD)
  finally show ?thesis
    by (simp only: dropWhile_eq_drop)
qed

lemma due_from_split:
  assumes "u \<le> u'"
  shows "due_from u' idx xs =
     due_from u idx xs @ due_from u' (idx + length (due_from u idx xs)) xs"
  using takeWhile_split [of "\<lambda>e. start_time e \<le> u" "\<lambda>e. start_time e \<le> u'" "drop idx xs"] assms
  by (simp add: due_from_def add.commute)

lemma due_from_beyond:
  assumes "sorted (map start_time xs)"
  shows "\<forall>e\<in>set (due_from u' (idx + length (due_from u idx xs)) xs). u < start_time e"
proof -
  have "sorted (map start_time (drop idx xs))"
    using assms by (simp add: sorted_wrt_drop drop_map [symmetric])
  from sorted_dropWhile_beyond [OF this, of u]
  have "\<forall>e\<in>set (drop (idx + length (due_from u idx xs)) xs). u < start_time e"
    by (simp add: due_from_def dropWhile_eq_drop add.commute)
  with due_from_subset [of u' "idx + length (due_from u idx xs)" xs] show ?thesis
    by blast
qed

lemma voices_same_time:
  assumes "\<forall>e\<in>set es. t \<le> anchor + start_time e" and "t0 \<le> t"
  shows "concat (map (voice anchor t tp) es) = concat (map (voice anchor t0 tp) es)"
proof -
  from assms have "\<forall>e\<in>set es. t0 \<le> anchor + start_time e"
    by fastforce
  then have "concat (map (voice anchor t0 tp) es) =
      concat (map (toneVoice anchor tp) (filter (\<lambda>e. \<not> endsWith_r (duration e)) es))"
    by (rule voices_on_time)
  with voices_on_time [OF assms(1), of tp] show ?thesis
    by simp
qed

lemma resume_ok_step:
  assumes "resume_ok idx anchor t0 tp xs prev s" and "sorted (map start_time xs)"
    and "prev \<le> t" and "t \<le> prev + LOOKAHEAD_SECS"
    and "nextNoteIndexRef s' =
           nextNoteIndexRef s + length (due_from (t - anchor + LOOKAHEAD_SECS) (nextNoteIndexRef s) xs)"
    and "tracked s' = tracked s @ concat (map (voice anchor t tp)
           (due_from (t - anchor + LOOKAHEAD_SECS) (nextNoteIndexRef s) xs))"
  shows "resume_ok idx anchor t0 tp xs t s'"
proof -
  define u where "u = prev - anchor + LOOKAHEAD_SECS"
  define u' where "u' = t - anchor + LOOKAHEAD_SECS"
  define new where "new = due_from u' (idx + length (due_from u idx xs)) xs"
  have t0: "t0 \<le> prev" and i: "nextNoteIndexRef s = idx + length (due_from u idx xs)"
    and tr: "tracked s = concat (map (voice anchor t0 tp) (due_from u idx xs))"
    using assms(1) by (simp_all add: resume_ok_def u_def)
  have sp: "due_from u' idx xs = due_from u idx xs @ new"
    unfolding new_def using assms(3) by (intro due_from_split) (simp add: u_def u'_def)
  have "\<forall>e\<in>set new. u < start_time e"
    unfolding new_def using assms(2) by (rule due_from_beyond)
  then have "\<forall>e\<in>set new. t \<le> anchor + start_time e"
    using assms(4) by (fastforce simp: u_def)
  then have v: "concat (map (voice anchor t tp) new) = concat (map (voice anchor t0 tp) new)"
    using t0 assms(3) by (intro voices_same_time) simp_all
  show ?thesis
    using t0 assms(3)
    unfolding resume_ok_def assms(5,6) u'_def [symmetric] i new_def [symmetric] tr sp v
    by simp
qed

lemma resume_ok_run:
  assumes "in_session anchor td xs tp s" and "resume_ok idx anchor t0 tp xs prev s"
    and "sorted (map start_time xs)"
    and "uninterrupted anchor td prev es" and "timely prev es"
  shows "resume_ok idx anchor t0 tp xs (last_tick prev es) (run es s)"
  using assms
proof (induction es arbitrary: s prev)
  case Nil
  then show ?case by simp
next
  case (Cons e es)
  show ?case
  proof (cases e)
    case (Timeout t)
    with Cons.prems have t: "prev \<le> t" "t \<le> prev + LOOKAHEAD_SECS"
      and rest: "uninterrupted anchor td t es" "timely t es"
      by simp_all
    note st = session_timeout [OF Cons.prems(1), of t]
    have "resume_ok idx anchor t0 tp xs t (fire_timeout t s)"
      using Cons.prems(2,3) t st(2,3) by (rule resume_ok_step)
    then show ?thesis
      using Cons.IH [OF st(1) _ Cons.prems(3) rest] Timeout by simp
  next
    case (Frame t)
    with Cons.prems have t: "t - anchor < td"
      and rest: "uninterrupted anchor td prev es" "timely prev es"
      by simp_all
    note sf = session_frame [OF Cons.prems(1) t]
    have "resume_ok idx anchor t0 tp xs prev (fire_frame t s)"
      using Cons.prems(2) sf(2,3) by (simp add: resume_ok_def)
    then show ?thesis
      using Cons.IH [OF sf(1) _ Cons.prems(3) rest] Frame by simp
  qed (use Cons.prems in simp_all)
qed

lemma play_resume_ok:
  "resume_ok (seekLoop (sortedNotesRef s) (seekOffsetRef s) 0) (now - seekOffsetRef s) now
     (tempoRef s) (sortedNotesRef s) now (play now s)"
  by (simp add: resume_ok_def play_scheduled play_tracked play_voices_def play_due_def)

lemma due_from_window:
  assumes "sorted (map start_time xs)"
  shows "due_from u (seekLoop xs p 0) xs =
     filter (\<lambda>e. p - 0.02 \<le> start_time e \<and> start_time e \<le> u) xs"
proof -
  have "due_from u (seekLoop xs p 0) xs =
      takeWhile (\<lambda>e. start_time e \<le> u) (filter (\<lambda>e. p - 0.02 \<le> start_time e) xs)"
    using seek_suffix [OF assms, of p] by (simp add: due_from_def)
  also have "\<dots> = filter (\<lambda>e. start_time e \<le> u) (filter (\<lambda>e. p - 0.02 \<le> start_time e) xs)"
    using assms by (intro sorted_takeWhile_filter sorted_filter_key)
  finally show ?thesis
    by (simp add: conj_commute)
qed


lemma set_concat_member: "x \<in> set xs \<Longrightarrow> set (f x) \<subseteq> set (concat (map f xs))"
  by auto

text \<open>
  C3, as the source has it. Let \<open>play\<close> run at engine time \<open>now\<close> in any reachable
  state, with stored position \<open>p\<close>. The seek loop leaves the cursor at the first event
  that does not start strictly before \<open>p - 0.02\<close>: the events from the cursor on are
  exactly those with \<open>p - 0.02 \<le> start_time\<close>. The voices \<open>play\<close> creates are those of
  the events that start between \<open>p - 0.02\<close> and the end of the look-ahead window. An
  event whose start lies more than 20 ms before the engine time of scheduling gets no
  oscillator; a sounding event at or after \<open>p\<close> that is scheduled by \<open>play\<close> gets its
  voice exactly at its time. As long as the playback is not interrupted, every oscillator
  the hook holds was created for an event that does not start before \<open>p - 0.02\<close>: an
  event further in the past is not sounded again. And if moreover no scheduler tick is
  later than one look-ahead window after the run of the scheduler before it, the
  oscillators held are exactly the voices of the events that start between \<open>p - 0.02\<close>
  and the look-ahead of the latest tick: every sounding event at or after \<open>p\<close> that the
  look-ahead has reached has its voice, exactly at its time.
\<close>

theorem C3_resume_position:
  assumes "s0 = run es0 (useAudioPlayback notes tp td)"
    and "p = seekOffsetRef s0" and "xs = sort_key start_time notes"
    and "uninterrupted (now - p) td now es"
  shows "drop (seekLoop xs p 0) xs = filter (\<lambda>e. p - 0.02 \<le> start_time e) xs
     \<and> tracked (play now s0) =
         concat (map (voice (now - p) now tp)
           (filter (\<lambda>e. p - 0.02 \<le> start_time e \<and> start_time e \<le> p + LOOKAHEAD_SECS) xs))
     \<and> (anchor + start_time e < t - 0.02 \<longrightarrow> voice anchor t tp e = [])
     \<and> (\<not> endsWith_r (duration e) \<and> p \<le> start_time e \<longrightarrow>
          voice (now - p) now tp e = toneVoice (now - p) tp e)
     \<and> (\<forall>v\<in>set (tracked (run es (play now s0))).
          \<exists>e\<in>set xs. p - 0.02 \<le> start_time e \<and> (\<exists>t. v \<in> set (voice (now - p) t tp e)))
     \<and> (timely now es \<longrightarrow>
          tracked (run es (play now s0)) =
            concat (map (voice (now - p) now tp)
              (filter (\<lambda>e. p - 0.02 \<le> start_time e \<and>
                           start_time e \<le> last_tick now es - (now - p) + LOOKAHEAD_SECS) xs)))
     \<and> (timely now es \<and> ev \<in> set xs \<and> \<not> endsWith_r (duration ev) \<and> p \<le> start_time ev \<and>
        start_time ev \<le> last_tick now es - (now - p) + LOOKAHEAD_SECS \<longrightarrow>
          set (toneVoice (now - p) tp ev) \<subseteq> set (tracked (run es (play now s0))))"
proof -
  have f: "sortedNotesRef s0 = xs" "totalDurationRef s0 = td" "tempoRef s0 = tp"
    by (simp_all add: assms(1,3) static_run useAudioPlayback_def)
  have srt: "sorted (map start_time xs)"
    unfolding assms(3) by (rule sorted_timeline)
  have c0: "consistent s0"
    unfolding assms(1) by (rule consistent_reachable)
  have a: "drop (seekLoop xs p 0) xs = filter (\<lambda>e. p - 0.02 \<le> start_time e) xs"
    using srt by (rule seek_suffix)
  have b: "tracked (play now s0) =
         concat (map (voice (now - p) now tp)
           (filter (\<lambda>e. p - 0.02 \<le> start_time e \<and> start_time e \<le> p + LOOKAHEAD_SECS) xs))"
    using play_due_window [of s0] srt
    by (simp add: play_tracked play_voices_def f assms(2))
  have c: "voice anchor t tp e = []" if "anchor + start_time e < t - 0.02"
    using that by (simp add: voice_def)
  have d: "voice (now - p) now tp e = toneVoice (now - p) tp e"
    if "\<not> endsWith_r (duration e) \<and> p \<le> start_time e" for e
    using that voice_on_time [of now "now - p" e tp] by simp
  have ses: "in_session (now - p) td xs tp (play now s0)"
    using session_play [OF c0, of now] by (simp add: f assms(2))
  moreover have "resumed_from (seekLoop xs p 0) (now - p) tp xs (play now s0)"
    using play_resumed_from [of s0 now] by (simp add: f assms(2))
  ultimately have "resumed_from (seekLoop xs p 0) (now - p) tp xs (run es (play now s0))"
    using resumed_from_run [OF _ _ assms(4)] by blast
  then have e: "\<forall>v\<in>set (tracked (run es (play now s0))).
          \<exists>e\<in>set xs. p - 0.02 \<le> start_time e \<and> (\<exists>t. v \<in> set (voice (now - p) t tp e))"
    unfolding resumed_from_def a by simp blast
  have g: "tracked (run es (play now s0)) =
            concat (map (voice (now - p) now tp)
              (filter (\<lambda>e. p - 0.02 \<le> start_time e \<and>
                           start_time e \<le> last_tick now es - (now - p) + LOOKAHEAD_SECS) xs))"
    if tm: "timely now es"
  proof -
    have "resume_ok (seekLoop xs p 0) (now - p) now tp xs now (play now s0)"
      using play_resume_ok [of s0 now] by (simp add: f assms(2))
    with ses have "resume_ok (seekLoop xs p 0) (now - p) now tp xs (last_tick now es)
        (run es (play now s0))"
      using srt assms(4) tm by (rule resume_ok_run)
    then show ?thesis
      by (simp add: resume_ok_def due_from_window [OF srt])
  qed
  have h: "set (toneVoice (now - p) tp ev) \<subseteq> set (tracked (run es (play now s0)))"
    if "timely now es \<and> ev \<in> set xs \<and> \<not> endsWith_r (duration ev) \<and> p \<le> start_time ev \<and>
        start_time ev \<le> last_tick now es - (now - p) + LOOKAHEAD_SECS"
  proof -
    from that have v: "voice (now - p) now tp ev = toneVoice (now - p) tp ev"
      by (intro d) simp
    from that have "ev \<in> set (filter (\<lambda>e. p - 0.02 \<le> start_time e \<and>
        start_time e \<le> last_tick now es - (now - p) + LOOKAHEAD_SECS) xs)"
      by simp
    then have "set (voice (now - p) now tp ev) \<subseteq>
        set (concat (map (voice (now - p) now tp) (filter (\<lambda>e. p - 0.02 \<le> start_time e \<and>
        start_time e \<le> last_tick now es - (now - p) + LOOKAHEAD_SECS) xs)))"
      by (rule set_concat_member)
    then show ?thesis
      unfolding v g [OF that [THEN conjunct1]] .
  qed
  have c': "anchor + start_time e < t - 0.02 \<longrightarrow> voice anchor t tp e = []"
    by (rule impI) (rule c)
  have d': "\<not> endsWith_r (duration e) \<and> p \<le> start_time e \<longrightarrow>
          voice (now - p) now tp e = toneVoice (now - p) tp e"
    by (rule impI) (rule d)
  have g': "timely now es \<longrightarrow>
          tracked (run es (play now s0)) =
            concat (map (voice (now - p) now tp)
              (filter (\<lambda>e. p - 0.02 \<le> start_time e \<and>
                           start_time e \<le> last_tick now es - (now - p) + LOOKAHEAD_SECS) xs))"
    by (rule impI) (rule g)
  have h': "timely now es \<and> ev \<in> set xs \<and> \<not> endsWith_r (duration ev) \<and> p \<le> start_time ev \<and>
        start_time ev \<le> last_tick now es - (now - p) + LOOKAHEAD_SECS \<longrightarrow>
          set (toneVoice (now - p) tp ev) \<subseteq> set (tracked (run es (play now s0)))"
    by (rule impI) (rule h)
  from a b c' d' e g' h' show ?thesis
    by (intro conjI)
qed


theorem C3_resume_position_witness:
  "seekOffsetRef (run [Play 0, Pause 0.1] spaced_hook) = 0.1
   \<and> uninterrupted (10 - 0.1) 10 10 [Timeout 10.2, Timeout 10.6]
   \<and> timely 10 [Timeout 10.2, Timeout 10.6]
   \<and> drop (seekLoop (sort_key start_time spaced_notes) 0.1 0) (sort_key start_time spaced_notes) =
       [spaced_notes ! 1, spaced_notes ! 2]
   \<and> tracked (play 10 (run [Play 0, Pause 0.1] spaced_hook)) = []
   \<and> voice (10 - 0.1) 10 120 (spaced_notes ! 0) = []
   \<and> map start_at (tracked (run [Timeout 10.2, Timeout 10.6]
         (play 10 (run [Play 0, Pause 0.1] spaced_hook)))) = [12.4, 12.4]
   \<and> set (toneVoice (10 - 0.1) 120 (spaced_notes ! 1)) \<subseteq>
       set (tracked (run [Timeout 10.2, Timeout 10.6]
         (play 10 (run [Play 0, Pause 0.1] spaced_hook))))"
proof -
  define s0 where "s0 = run [Play 0, Pause 0.1] spaced_hook"
  define es where "es = [Timeout 10.2, Timeout 10.6]"
  have p: "0.1 = seekOffsetRef s0"
    by (simp add: s0_def pause_position play_clock spaced_hook_def useAudioPlayback_def)
  have u: "uninterrupted (10 - 0.1) 10 10 es"
    by (simp add: es_def)
  have tm: "timely 10 es"
    by (simp add: es_def LOOKAHEAD_SECS_def)
  have s: "s0 = run [Play 0, Pause 0.1] (useAudioPlayback spaced_notes 120 10)"
    by (simp add: s0_def spaced_hook_def)
  note T = C3_resume_position [where ?s0.0 = s0 and ?es0.0 = "[Play 0, Pause 0.1]"
      and ?notes = spaced_notes and ?tp = 120 and ?td = 10 and ?p = "0.1"
      and ?xs = "sort_key start_time spaced_notes" and ?now = 10 and ?es = es
      and ?anchor = "10 - 0.1" and ?t = 10 and ?e = "spaced_notes ! 0"
      and ?ev = "spaced_notes ! 1", OF s p refl u]
  have xs: "filter (\<lambda>e. 0.1 - 0.02 \<le> start_time e) (sort_key start_time spaced_notes) =
      [spaced_notes ! 1, spaced_notes ! 2]"
    "filter (\<lambda>e. 0.1 - 0.02 \<le> start_time e \<and> start_time e \<le> 0.1 + LOOKAHEAD_SECS)
       (sort_key start_time spaced_notes) = []"
    "filter (\<lambda>e. 0.1 - 0.02 \<le> start_time e \<and>
         start_time e \<le> last_tick 10 es - (10 - 0.1) + LOOKAHEAD_SECS)
       (sort_key start_time spaced_notes) = [spaced_notes ! 1]"
    by (simp_all add: spaced_notes_def LOOKAHEAD_SECS_def es_def)
  have w1: "drop (seekLoop (sort_key start_time spaced_notes) 0.1 0)
      (sort_key start_time spaced_notes) = [spaced_notes ! 1, spaced_notes ! 2]"
    using T [THEN conjunct1] by (simp only: xs)
  have w2: "tracked (play 10 s0) = []"
    using T [THEN conjunct2, THEN conjunct1] by (simp only: xs) simp
  have w3: "voice (10 - 0.1) 10 120 (spaced_notes ! 0) = []"
    using T [THEN conjunct2, THEN conjunct2, THEN conjunct1]
    by (simp add: spaced_notes_def)
  have "tracked (run es (play 10 s0)) =
      concat (map (voice (10 - 0.1) 10 120) [spaced_notes ! 1])"
    using T [THEN conjunct2, THEN conjunct2, THEN conjunct2, THEN conjunct2, THEN conjunct2,
        THEN conjunct1] tm
    by (simp only: xs)
  then have w4: "map start_at (tracked (run es (play 10 s0))) = [12.4, 12.4]"
    by (simp add: spaced_notes_def voice_def endsWith_r_def Let_def primaryOsc_def
        brightOsc_def)
  have "spaced_notes ! 1 \<in> set (sort_key start_time spaced_notes)"
    "\<not> endsWith_r (duration (spaced_notes ! 1))" "0.1 \<le> start_time (spaced_notes ! 1)"
    "start_time (spaced_notes ! 1) \<le> last_tick 10 es - (10 - 0.1) + LOOKAHEAD_SECS"
    by (simp_all add: spaced_notes_def endsWith_r_def es_def LOOKAHEAD_SECS_def)
  with tm have w5: "set (toneVoice (10 - 0.1) 120 (spaced_notes ! 1)) \<subseteq>
      set (tracked (run es (play 10 s0)))"
    by (intro T [THEN conjunct2, THEN conjunct2, THEN conjunct2, THEN conjunct2, THEN conjunct2,
        THEN conjunct2, THEN mp] conjI)
  from p [symmetric] u tm w1 w2 w3 w4 w5 show ?thesis
    unfolding s0_def es_def by (simp only: simp_thms)
qed

text \<open>
  C3 as stated fails: a note at or after the resume position need not sound. With three
  quarter notes 2.5 s apart, paused at 0.1 s and resumed at engine time 10 s, a scheduler
  tick at 10.25 s and a late one at 13.2 s, the playback is not interrupted and the cursor
  passes every event, but the note at 2.5 s, due at engine time 12.4 s, lies more than
  20 ms in the past when the late tick reaches it. The only voice held is that of the note
  at 5 s.
\<close>

theorem C3_late_tick_skips_note:
  "seekOffsetRef (run [Play 0, Pause 0.1] spaced_hook) = 0.1
   \<and> uninterrupted (10 - 0.1) 10 10 [Timeout 10.25, Timeout 13.2]
   \<and> \<not> endsWith_r (duration (spaced_notes ! 1))
   \<and> seekOffsetRef (run [Play 0, Pause 0.1] spaced_hook) \<le> start_time (spaced_notes ! 1)
   \<and> nextNoteIndexRef (run [Timeout 10.25, Timeout 13.2]
        (play 10 (run [Play 0, Pause 0.1] spaced_hook))) = 3
   \<and> pending_timeouts (run [Timeout 10.25, Timeout 13.2]
        (play 10 (run [Play 0, Pause 0.1] spaced_hook))) = []
   \<and> map start_at (tracked (run [Timeout 10.25, Timeout 13.2]
        (play 10 (run [Play 0, Pause 0.1] spaced_hook)))) = [14.9, 14.9]"
  by (simp add: eval_defs spaced_hook_def spaced_notes_def tracked_def upt_rec primaryOsc_def
      brightOsc_def)



end
